theory Spec2Isabelle
  imports Complex_Main "HOL-Library.Log_Nat"
begin

section \<open>Long-Distance Protocol: the page driver of valentine/main.js\<close>

text \<open>
  The script is one closure over a handful of DOM elements, three counters and the browser's
  timer queue. The embedding keeps that shape: the record \<open>page\<close> holds the state the
  orchestration reads or writes, each callback handed to \<open>setTimeout\<close> or \<open>setInterval\<close> is
  a constructor of \<open>action\<close>, and the event loop is the function \<open>apply_event\<close>.

  What the script cannot decide itself is a field of \<open>environment\<close>: whether the global
  \<open>Globe\<close> is defined at a given instant, whether \<open>confetti\<close> is a function, whether the
  \<open>#globe-loading\<close> element exists, the wall clock at page load, the viewport width, the
  values \<open>Math.random()\<close> returns, the readings of \<open>performance.now()\<close>, the value
  \<open>Math.pow\<close> computes (the language leaves it to the implementation) and the locale in
  which \<open>toLocaleString\<close> writes a number. Elements the script dereferences without a guard
  are taken to exist; elements it guards (\<open>.typewriter-target\<close>, \<open>#globe-loading\<close>) are
  optional.

  Time is a virtual clock in milliseconds. A timer registered with delay \<open>d\<close> is due at
  \<open>clock + d\<close>; the loop fires the pending timer with the least due time, the one registered
  first among equals. Numbers that are doubles in the script are integers where the script
  only ever holds integers (counters, millisecond differences). In the two places that
  scale a fraction (the eased counter, the dodge offset) they are the reals a double can
  hold, and every \<open>+\<close>, \<open>-\<close>, \<open>*\<close>, \<open>/\<close> and decimal literal is rounded to the nearest
  double by \<open>fl\<close>.

  Left out, as drawing only: the starfield canvas, the terminal lines of the landing screen
  and the class that shows the begin button, the configuration handed to the globe
  renderer, and the styling of the ambient dots.
\<close>

subsection \<open>Constants\<close>

definition DISTANCE_MILES :: nat where
  "DISTANCE_MILES = 3084"

definition ARC_FLIGHT_TIME :: nat where
  "ARC_FLIGHT_TIME = 7000"

definition ARRIVING_THRESHOLD :: real where
  "ARRIVING_THRESHOLD = 3 / 4"

definition CE_DISPLAY_TIME :: nat where
  "CE_DISPLAY_TIME = 2500"

definition TYPEWRITER_SPEED :: nat where
  "TYPEWRITER_SPEED = 25"

definition retryMessages :: "string list" where
  "retryMessages =
     [''Error: Connection refused.'', ''Error: Timeout exceeded.'', ''Rerouting to Accept...'']"

subsection \<open>Double-precision arithmetic\<close>

text \<open>
  IEEE 754 binary64, round to nearest, ties to even: \<open>fl x\<close> is the double nearest to the
  real \<open>x\<close>. A non-zero double is \<open>n * 2 ^ (e - 52)\<close> with \<open>2 ^ 52 \<le> \<bar>n\<bar> < 2 ^ 53\<close>, where \<open>e\<close>
  is the binary exponent of \<open>x\<close>, the floor of its logarithm to base 2; \<open>fl\<close> scales \<open>x\<close> by
  that power of two and rounds the quotient to an integer. The exponent is read off the bit
  length of the integer part of \<open>\<bar>x\<bar>\<close>, or of \<open>1 / \<bar>x\<bar>\<close> below 1. The exponent range is not
  bounded here: the quantities of the script (pixels, milliseconds, fractions of them) are
  far from the overflow threshold \<open>2 ^ 1024\<close> and from the subnormal range below
  \<open>2 ^ - 1022\<close>. Both zeros of the format are the real \<open>0\<close>; the two computations below
  produce a zero only as \<open>+0\<close>.
\<close>

definition rne :: "real \<Rightarrow> int" where
  "rne y =
     (let f = \<lfloor>y\<rfloor>
      in if y - of_int f < 1 / 2 then f
         else if 1 / 2 < y - of_int f then f + 1
         else if even f then f else f + 1)"

definition pow2 :: "int \<Rightarrow> real" where
  "pow2 k = (if 0 \<le> k then 2 ^ nat k else 1 / 2 ^ nat (- k))"

definition expo :: "real \<Rightarrow> int" where
  "expo x =
     (let a = \<bar>x\<bar>
      in if a = 0 then 0
         else if 1 \<le> a then bitlen \<lfloor>a\<rfloor> - 1
         else let k = bitlen \<lfloor>1 / a\<rfloor> - 1
              in if 1 / a = pow2 k then - k else - k - 1)"

definition fl :: "real \<Rightarrow> real" where
  "fl x =
     (if x = 0 then 0
      else of_int (rne (x / pow2 (expo x - 52))) * pow2 (expo x - 52))"

text \<open>\<open>Math.round\<close>: the nearest integer, a half going up; an argument in \<open>[-0.5, 0)\<close> gives
  the negative zero, which \<open>toLocaleString\<close> tells from \<open>0\<close>.\<close>

datatype rounded = NegZero | Whole int

definition math_round :: "real \<Rightarrow> rounded" where
  "math_round x = (if - (1 / 2) \<le> x \<and> x < 0 then NegZero else Whole \<lfloor>x + 1 / 2\<rfloor>)"

subsection \<open>State\<close>

datatype phase = Landing | Globe | Letter

text \<open>One entry per \<open>classList.add('active')\<close> or \<open>classList.remove('active')\<close> on a phase
  container, in the order the script performs them.\<close>

datatype phase_event = Activated phase | Deactivated phase

datatype action =
    ActivateGlobe
  | WaitForGlobe
  | LoadingFade
  | LoadingHide
  | StartArc
  | Arriving
  | Delivered
  | ShowCE
  | ResolveGlobe
  | RomanticPhase
  | ShowLetter
  | TypeNextParagraph
  | TypeChar nat
  | CursorFade
  | CountdownTick
  | ShakeOff
  | Dodge
  | RetryErrorClear
  | RetryErrorHide
  | ConfettiLeft
  | ConfettiRight
  | ConfettiHeart
  | AskHide

text \<open>A \<open><p>\<close> of the typewriter target: the text of its text nodes, and whether its inline
  \<open>display\<close> lets it show.\<close>

record para =
  ptext :: string
  pshown :: bool

record environment =
  globeDefined :: "nat \<Rightarrow> bool"
  confettiPresent :: bool
  loadingPresent :: bool
  wallEpoch :: int
  innerWidth :: real
  rng :: "nat \<Rightarrow> real"
  perfNow :: "nat \<Rightarrow> real"
  mathPow :: "real \<Rightarrow> real \<Rightarrow> real"
  toLocaleString :: "rounded \<Rightarrow> string"

record page =
  env :: environment
  clock :: nat
  timers :: "(nat \<times> action) list"
  rngUsed :: nat
  uncaught :: nat
  consoleWarnings :: nat
  landingActive :: bool
  globeActive :: bool
  letterActive :: bool
  phaseLog :: "phase_event list"
  btnBeginPointerEvents :: bool
  btnBeginOpacity0 :: bool
  starfieldRunning :: bool
  bodyOverflowAuto :: bool
  romantic :: bool
  waitAttempts :: nat
  globeResolved :: bool
  globeBuilt :: bool
  loadingOpacity0 :: bool
  loadingDisplayed :: bool
  arcShown :: bool
  statusOverlayVisible :: bool
  latencyFrame :: "real option"
  statLatency :: string
  statPacket :: string
  statPacketArriving :: bool
  statPacketDelivered :: bool
  ceVisible :: bool
  ambientDots :: nat
  paragraphs :: "para list option"
  texts :: "string list"
  pIndex :: nat
  charIndex :: nat
  cursorCreated :: bool
  cursorAt :: "nat option"
  cursorFaded :: bool
  countdownText :: string
  retryCount :: nat
  retryErrorText :: string
  retryErrorVisible :: bool
  btnRetryShake :: bool
  btnRetryDodge :: bool
  btnRetryHiding :: bool
  btnRetryTransform :: "(real \<times> real) option"
  confettiBursts :: nat
  askOpacity0 :: bool
  askDisplayed :: bool
  acceptedVisible :: bool

text \<open>\<open>setTimeout(f, d)\<close>: the callback joins the end of the queue, due \<open>d\<close> ms from now.\<close>

definition schedule :: "nat \<Rightarrow> action \<Rightarrow> page \<Rightarrow> page" where
  "schedule d a s = s\<lparr>timers := timers s @ [(clock s + d, a)]\<rparr>"

subsection \<open>Countdown (startCountdown / update)\<close>

fun show_nat :: "nat \<Rightarrow> string" where
  "show_nat n =
     (if n < 10 then [''0123456789'' ! n]
      else show_nat (n div 10) @ [''0123456789'' ! (n mod 10)])"

declare show_nat.simps [simp del]

text \<open>\<open>String(n).padStart(2, '0')\<close>\<close>

definition padStart2 :: "string \<Rightarrow> string" where
  "padStart2 t = replicate (2 - length t) CHR ''0'' @ t"

text \<open>\<open>parts.join(' ')\<close>\<close>

fun join_sp :: "string list \<Rightarrow> string" where
  "join_sp [] = []"
| "join_sp [x] = x"
| "join_sp (x # y # ys) = x @ '' '' @ join_sp (y # ys)"

text \<open>2026-02-14T00:00:00-05:00 in milliseconds since the epoch.\<close>

definition valentineDate :: int where
  "valentineDate = 1771045200000"

text \<open>The body of \<open>update\<close> after \<open>diff\<close> is computed. Both operands of every \<open>/\<close> and \<open>%\<close>
  are positive there, so \<open>Math.floor(a / b)\<close> is \<open>div\<close> and \<open>%\<close> is \<open>mod\<close>.\<close>

definition countdown_render :: "int \<Rightarrow> string" where
  "countdown_render diff =
     (if diff \<le> 0 then ''Happy Valentine's Day''
      else
        let days = nat (diff div (1000 * 60 * 60 * 24));
            hours = nat ((diff mod (1000 * 60 * 60 * 24)) div (1000 * 60 * 60));
            minutes = nat ((diff mod (1000 * 60 * 60)) div (1000 * 60));
            seconds = nat ((diff mod (1000 * 60)) div 1000);
            parts = (if days > 0 then [show_nat days @ ''d''] else [])
                    @ [padStart2 (show_nat hours) @ ''h'']
                    @ [padStart2 (show_nat minutes) @ ''m'']
                    @ [padStart2 (show_nat seconds) @ ''s'']
        in ''// Valentine's Day in '' @ join_sp parts)"

definition update_countdown :: "page \<Rightarrow> page" where
  "update_countdown s =
     s\<lparr>countdownText :=
         countdown_render (valentineDate - (wallEpoch (env s) + int (clock s)))\<rparr>"

definition startCountdown :: "page \<Rightarrow> page" where
  "startCountdown s = schedule 1000 CountdownTick (update_countdown s)"

subsection \<open>Eased latency counter (animateLatencyCounter / update)\<close>

text \<open>\<open>ARC_FLIGHT_TIME * 0.8\<close>: the literal is rounded to a double, then the product is.\<close>

definition latency_duration :: real where
  "latency_duration = fl (real ARC_FLIGHT_TIME * fl (8 / 10))"

text \<open>The two lines of \<open>update\<close> that turn \<open>progress\<close> into the number shown.\<close>

definition latency_value :: "environment \<Rightarrow> real \<Rightarrow> rounded" where
  "latency_value e progress =
     (let eased = fl (1 - mathPow e (fl (1 - progress)) 3)
      in math_round (fl (eased * real DISTANCE_MILES)))"

text \<open>
  \<open>update(now)\<close>, the callback handed to \<open>requestAnimationFrame\<close>. It closes over \<open>start\<close>;
  \<open>latencyFrame\<close> is the pending request, holding that \<open>start\<close>, or \<open>None\<close> when no frame is
  requested. \<open>now\<close> is the time stamp the browser passes to the callback.
\<close>

definition latency_update :: "real \<Rightarrow> page \<Rightarrow> page" where
  "latency_update now s =
     (case latencyFrame s of
        None \<Rightarrow> s
      | Some start \<Rightarrow>
          let elapsed = fl (now - start);
              progress = min (fl (elapsed / latency_duration)) 1;
              value = latency_value (env s) progress;
              s1 = s\<lparr>statLatency := toLocaleString (env s) value\<rparr>
          in if progress < 1 then s1\<lparr>latencyFrame := Some start\<rparr>
             else s1\<lparr>latencyFrame := None\<rparr>)"

definition animateLatencyCounter :: "page \<Rightarrow> page" where
  "animateLatencyCounter s = s\<lparr>latencyFrame := Some (perfNow (env s) (clock s))\<rparr>"

subsection \<open>Retry and accept (handleRetry, handleAccept)\<close>

text \<open>\<open>Math.min(60, window.innerWidth * 0.1)\<close>\<close>

definition dodge_maxX :: "real \<Rightarrow> real" where
  "dodge_maxX width = min 60 (fl (width * fl (1 / 10)))"

definition dodge_offset :: "real \<Rightarrow> real \<Rightarrow> real \<Rightarrow> real \<times> real" where
  "dodge_offset width r1 r2 =
     (let maxX = dodge_maxX width;
          randomX = fl (fl (fl (r1 - 1 / 2) * maxX) * 2);
          randomY = fl (- 20 - fl (r2 * 30))
      in (randomX, randomY))"

definition dodge :: "page \<Rightarrow> page" where
  "dodge s =
     s\<lparr>btnRetryDodge := True,
       btnRetryTransform :=
         Some (dodge_offset (innerWidth (env s)) (rng (env s) (rngUsed s))
                 (rng (env s) (rngUsed s + 1))),
       rngUsed := rngUsed s + 2\<rparr>"

definition handleRetry :: "page \<Rightarrow> page" where
  "handleRetry s =
     (if retryCount s \<ge> length retryMessages then s
      else
        let message = retryMessages ! retryCount s;
            s1 = s\<lparr>retryErrorText := message, retryErrorVisible := True\<rparr>;
            s2 = (if retryCount s1 = 0 then
                    schedule 500 ShakeOff (s1\<lparr>btnRetryShake := True\<rparr>)
                  else if retryCount s1 = 1 then
                    schedule 500 Dodge (schedule 500 ShakeOff (s1\<lparr>btnRetryShake := True\<rparr>))
                  else
                    schedule 1500 RetryErrorClear (s1\<lparr>btnRetryHiding := True\<rparr>));
            s3 = s2\<lparr>retryCount := retryCount s2 + 1\<rparr>
        in if retryCount s3 < length retryMessages then schedule 2000 RetryErrorHide s3
           else s3)"

definition confetti :: "page \<Rightarrow> page" where
  "confetti s = s\<lparr>confettiBursts := confettiBursts s + 1\<rparr>"

definition handleAccept :: "page \<Rightarrow> page" where
  "handleAccept s =
     (let s1 = (if confettiPresent (env s) then
                  schedule 600 ConfettiHeart
                    (schedule 400 ConfettiRight (schedule 200 ConfettiLeft (confetti s)))
                else s)
      in schedule 800 AskHide (s1\<lparr>askOpacity0 := True\<rparr>))"

subsection \<open>Typewriter (startTypewriter, typeNextParagraph, typeChar)\<close>

text \<open>The array \<open>paragraphs\<close> of the closure; empty when the target is absent.\<close>

definition paras :: "page \<Rightarrow> para list" where
  "paras s = (case paragraphs s of None \<Rightarrow> [] | Some ps \<Rightarrow> ps)"

definition set_para :: "nat \<Rightarrow> (para \<Rightarrow> para) \<Rightarrow> page \<Rightarrow> page" where
  "set_para i f s = s\<lparr>paragraphs := map_option (\<lambda>ps. ps[i := f (ps ! i)]) (paragraphs s)\<rparr>"

text \<open>
  \<open>typeChar\<close> closes over the paragraph \<open>p\<close> and its \<open>fullText\<close>; the model passes the index
  \<open>i\<close> both were read at. \<open>p.insertBefore(textNode, cursor)\<close> throws when the cursor is not a
  child of \<open>p\<close>: the callback then ends there, before \<open>charIndex++\<close> and before the next
  timer is set.
\<close>

function typeNextParagraph :: "page \<Rightarrow> page" and typeChar :: "nat \<Rightarrow> page \<Rightarrow> page" where
  "typeNextParagraph s =
     (if pIndex s \<ge> length (paras s) then schedule 1500 CursorFade s
      else
        let i = pIndex s;
            s1 = s\<lparr>charIndex := 0\<rparr>;
            s2 = set_para i (\<lambda>p. p\<lparr>pshown := True\<rparr>) s1;
            s3 = s2\<lparr>cursorAt := Some i\<rparr>
        in typeChar i s3)"
| "typeChar i s =
     (if charIndex s < length (texts s ! i) then
        (if cursorAt s = Some i then
           schedule TYPEWRITER_SPEED (TypeChar i)
             ((set_para i (\<lambda>p. p\<lparr>ptext := ptext p @ [texts s ! i ! charIndex s]\<rparr>) s)
                \<lparr>charIndex := charIndex s + 1\<rparr>)
         else s\<lparr>uncaught := uncaught s + 1\<rparr>)
      else
        let s1 = s\<lparr>pIndex := pIndex s + 1\<rparr>
        in if pIndex s1 < length (paras s1) then schedule 400 TypeNextParagraph s1
           else typeNextParagraph s1)"
  by pat_completeness auto
termination
  by (relation "measure (\<lambda>x. case x of
          Inl s \<Rightarrow> (if pIndex s \<ge> length (paras s) then 0 else 2)
        | Inr (i, s) \<Rightarrow> 1)")
     (auto simp: paras_def set_para_def)

declare typeNextParagraph.simps [simp del] typeChar.simps [simp del]

definition startTypewriter :: "page \<Rightarrow> page" where
  "startTypewriter s =
     (case paragraphs s of
        None \<Rightarrow> s
      | Some ps \<Rightarrow>
          if length ps = 0 then s
          else
            schedule 1800 TypeNextParagraph
              (s\<lparr>texts := map ptext ps,
                 paragraphs := Some (map (\<lambda>p. p\<lparr>ptext := [], pshown := False\<rparr>) ps),
                 cursorCreated := True,
                 cursorAt := None,
                 pIndex := 0,
                 charIndex := 0\<rparr>))"

subsection \<open>Letter phase and phase transitions\<close>

text \<open>Twenty-five dots, five \<open>Math.random()\<close> draws each.\<close>

definition createAmbientParticles :: "page \<Rightarrow> page" where
  "createAmbientParticles s =
     s\<lparr>ambientDots := ambientDots s + 25, rngUsed := rngUsed s + 125\<rparr>"

definition show_letter :: "page \<Rightarrow> page" where
  "show_letter s =
     startCountdown
       (startTypewriter
          (createAmbientParticles
             (s\<lparr>letterActive := True,
                phaseLog := phaseLog s @ [Activated Letter],
                bodyOverflowAuto := True\<rparr>)))"

definition transitionToLetter :: "page \<Rightarrow> page" where
  "transitionToLetter s =
     schedule 1200 ShowLetter
       (schedule 600 RomanticPhase
          (s\<lparr>globeActive := False, phaseLog := phaseLog s @ [Deactivated Globe]\<rparr>))"

definition transitionToGlobe :: "page \<Rightarrow> page" where
  "transitionToGlobe s =
     schedule 400 ActivateGlobe
       (s\<lparr>landingActive := False, phaseLog := phaseLog s @ [Deactivated Landing]\<rparr>)"

subsection \<open>Globe bridge (initGlobe, waitForGlobe, buildGlobe, scheduleStatusUpdates)\<close>

text \<open>
  \<open>resolve()\<close> settles the promise of \<open>initGlobe\<close> once; the click handler suspended at
  \<open>await initGlobe()\<close> resumes in the microtask that follows, which is before any other
  timer or click. Every call of \<open>resolve\<close> is the last statement of its callback, so the
  continuation \<open>transitionToLetter\<close> runs right after it.
\<close>

definition resolve :: "page \<Rightarrow> page" where
  "resolve s =
     (if globeResolved s then s else transitionToLetter (s\<lparr>globeResolved := True\<rparr>))"

definition scheduleStatusUpdates :: "page \<Rightarrow> page" where
  "scheduleStatusUpdates s =
     schedule (ARC_FLIGHT_TIME + 800 + CE_DISPLAY_TIME) ResolveGlobe
       (schedule (ARC_FLIGHT_TIME + 800) ShowCE
          (schedule ARC_FLIGHT_TIME Delivered
             (schedule (nat \<lfloor>real ARC_FLIGHT_TIME * ARRIVING_THRESHOLD\<rfloor>) Arriving s)))"

definition start_arc :: "page \<Rightarrow> page" where
  "start_arc s =
     scheduleStatusUpdates
       (animateLatencyCounter (s\<lparr>arcShown := True, statusOverlayVisible := True\<rparr>))"

definition buildGlobe :: "page \<Rightarrow> page" where
  "buildGlobe s = schedule 1500 StartArc (schedule 800 LoadingFade (s\<lparr>globeBuilt := True\<rparr>))"

definition waitForGlobe :: "page \<Rightarrow> page" where
  "waitForGlobe s =
     (if globeDefined (env s) (clock s) then buildGlobe s
      else if waitAttempts s < 50 then
        schedule 200 WaitForGlobe (s\<lparr>waitAttempts := waitAttempts s + 1\<rparr>)
      else
        let s1 = s\<lparr>consoleWarnings := consoleWarnings s + 1\<rparr>;
            s2 = (if loadingPresent (env s1) then s1\<lparr>loadingDisplayed := False\<rparr> else s1)
        in resolve s2)"

text \<open>A fresh promise and a fresh \<open>waitAttempts\<close> per call.\<close>

definition initGlobe :: "page \<Rightarrow> page" where
  "initGlobe s = waitForGlobe (s\<lparr>waitAttempts := 0, globeResolved := False\<rparr>)"

subsection \<open>Orchestration (init and the click handler of the begin button)\<close>

text \<open>The handler up to its \<open>await\<close>; the rest of it is the continuation in \<open>resolve\<close>.\<close>

definition begin_click :: "page \<Rightarrow> page" where
  "begin_click s =
     initGlobe
       (transitionToGlobe
          (s\<lparr>btnBeginPointerEvents := False,
             btnBeginOpacity0 := True,
             starfieldRunning := False\<rparr>))"

text \<open>The page once \<open>init\<close> has run: the markup's landing section is the active one, the typewriter
  target holds the letter's paragraphs \<open>ps\<close> (or is absent), nothing is scheduled.\<close>

definition init :: "environment \<Rightarrow> para list option \<Rightarrow> page" where
  "init e ps =
     \<lparr>env = e, clock = 0, timers = [], rngUsed = 0, uncaught = 0, consoleWarnings = 0,
      landingActive = True, globeActive = False, letterActive = False, phaseLog = [],
      btnBeginPointerEvents = True, btnBeginOpacity0 = False, starfieldRunning = True,
      bodyOverflowAuto = False, romantic = False, waitAttempts = 0, globeResolved = False,
      globeBuilt = False, loadingOpacity0 = False, loadingDisplayed = True, arcShown = False,
      statusOverlayVisible = False, latencyFrame = None, statLatency = [], statPacket = [],
      statPacketArriving = False, statPacketDelivered = False, ceVisible = False,
      ambientDots = 0, paragraphs = ps, texts = [], pIndex = 0, charIndex = 0,
      cursorCreated = False, cursorAt = None, cursorFaded = False, countdownText = [],
      retryCount = 0, retryErrorText = [], retryErrorVisible = False, btnRetryShake = False,
      btnRetryDodge = False, btnRetryHiding = False, btnRetryTransform = None,
      confettiBursts = 0, askOpacity0 = False, askDisplayed = True, acceptedVisible = False\<rparr>"

subsection \<open>The event loop\<close>

text \<open>What each timer callback does.\<close>

fun exec :: "action \<Rightarrow> page \<Rightarrow> page" where
  "exec ActivateGlobe s =
     s\<lparr>globeActive := True, phaseLog := phaseLog s @ [Activated Globe]\<rparr>"
| "exec WaitForGlobe s = waitForGlobe s"
| "exec LoadingFade s =
     (if loadingPresent (env s) then schedule 500 LoadingHide (s\<lparr>loadingOpacity0 := True\<rparr>)
      else s)"
| "exec LoadingHide s = s\<lparr>loadingDisplayed := False\<rparr>"
| "exec StartArc s = start_arc s"
| "exec Arriving s = s\<lparr>statPacket := ''Arriving...'', statPacketArriving := True\<rparr>"
| "exec Delivered s =
     s\<lparr>statPacket := ''Delivered'', statPacketArriving := False, statPacketDelivered := True\<rparr>"
| "exec ShowCE s = s\<lparr>ceVisible := True\<rparr>"
| "exec ResolveGlobe s = resolve s"
| "exec RomanticPhase s = s\<lparr>romantic := True\<rparr>"
| "exec ShowLetter s = show_letter s"
| "exec TypeNextParagraph s = typeNextParagraph s"
| "exec (TypeChar i) s = typeChar i s"
| "exec CursorFade s = s\<lparr>cursorFaded := True\<rparr>"
| "exec CountdownTick s = schedule 1000 CountdownTick (update_countdown s)"
| "exec ShakeOff s = s\<lparr>btnRetryShake := False\<rparr>"
| "exec Dodge s = dodge s"
| "exec RetryErrorClear s = s\<lparr>retryErrorText := [], retryErrorVisible := False\<rparr>"
| "exec RetryErrorHide s = s\<lparr>retryErrorVisible := False\<rparr>"
| "exec ConfettiLeft s = confetti s"
| "exec ConfettiRight s = confetti s"
| "exec ConfettiHeart s = confetti s"
| "exec AskHide s = s\<lparr>askDisplayed := False, acceptedVisible := True\<rparr>"

text \<open>The pending timer that fires next: least due time, earliest registered among equals.\<close>

fun earliest :: "(nat \<times> action) list \<Rightarrow> (nat \<times> action) option" where
  "earliest [] = None"
| "earliest (t # ts) =
     (case earliest ts of
        None \<Rightarrow> Some t
      | Some u \<Rightarrow> if fst t \<le> fst u then Some t else Some u)"

definition fire :: "page \<Rightarrow> page" where
  "fire s =
     (case earliest (timers s) of
        None \<Rightarrow> s
      | Some (due, a) \<Rightarrow>
          exec a (s\<lparr>clock := max (clock s) due, timers := remove1 (due, a) (timers s)\<rparr>))"

text \<open>
  What can happen to the page: a timer fires, time passes without passing a pending
  timer, the browser runs a requested animation frame, or the user clicks a control with
  the pointer. A pointer click reaches the begin button while the button takes pointer
  events; the accept and retry buttons live in the ask section and take clicks while it is
  displayed. A \<open>click\<close> event that does not come from the pointer (the keyboard on the
  focused button, \<open>click()\<close> from a script) is not an event of this loop: what the
  listener of the begin button does with one is the function \<open>begin_click\<close> itself.
\<close>

datatype event = Fire | Wait nat | Frame real | ClickBegin | ClickAccept | ClickRetry

fun enabled :: "event \<Rightarrow> page \<Rightarrow> bool" where
  "enabled Fire s = (timers s \<noteq> [])"
| "enabled (Wait d) s = list_all (\<lambda>t. clock s + d \<le> fst t) (timers s)"
| "enabled (Frame now) s = (latencyFrame s \<noteq> None)"
| "enabled ClickBegin s = btnBeginPointerEvents s"
| "enabled ClickAccept s = askDisplayed s"
| "enabled ClickRetry s = askDisplayed s"

fun apply_event :: "event \<Rightarrow> page \<Rightarrow> page" where
  "apply_event Fire s = fire s"
| "apply_event (Wait d) s = s\<lparr>clock := clock s + d\<rparr>"
| "apply_event (Frame now) s = latency_update now s"
| "apply_event ClickBegin s = begin_click s"
| "apply_event ClickAccept s = handleAccept s"
| "apply_event ClickRetry s = handleRetry s"

text \<open>A run: the events in order, \<open>None\<close> when one of them cannot happen where it stands.\<close>

fun run :: "event list \<Rightarrow> page \<Rightarrow> page option" where
  "run [] s = Some s"
| "run (e # es) s = (if enabled e s then run es (apply_event e s) else None)"

subsection \<open>The specification's renderings\<close>

text \<open>A number below 100 as exactly two decimal digits.\<close>

definition two_digits :: "nat \<Rightarrow> string" where
  "two_digits n = [''0123456789'' ! (n div 10), ''0123456789'' ! (n mod 10)]"

text \<open>
  The countdown as the specification words it: the completion message when nothing remains,
  else a floor-division cascade (take the days, carry the remainder to the hours, and so
  on), the days field left out when zero, the other fields always two digits.
\<close>

definition countdown_spec :: "int \<Rightarrow> string" where
  "countdown_spec remaining =
     (if remaining \<le> 0 then ''Happy Valentine's Day''
      else
        let d = remaining div 86400000;
            r1 = remaining - d * 86400000;
            h = r1 div 3600000;
            r2 = r1 - h * 3600000;
            m = r2 div 60000;
            r3 = r2 - m * 60000;
            sec = r3 div 1000
        in ''// Valentine's Day in ''
           @ (if d = 0 then [] else show_nat (nat d) @ ''d '')
           @ two_digits (nat h) @ ''h '' @ two_digits (nat m) @ ''m ''
           @ two_digits (nat sec) @ ''s'')"

text \<open>Progress clamped to the unit interval, as the specification words it.\<close>

definition clamp01 :: "real \<Rightarrow> real" where
  "clamp01 x = max 0 (min 1 x)"

subsection \<open>Invariants\<close>

text \<open>After an accept click at time \<open>t\<close>: the hiding of the ask section is still queued for
  \<open>t + 800\<close> and that instant has not passed, or it has happened.\<close>

definition accept_pending :: "nat \<Rightarrow> page \<Rightarrow> bool" where
  "accept_pending t x =
     (((t + 800, AskHide) \<in> set (timers x) \<and> clock x \<le> t + 800)
      \<or> (\<not> askDisplayed x \<and> acceptedVisible x))"

text \<open>
  The timers that carry the presentation forward: the activation of the globe phase, the
  polling of the library, the arc, the resolution of the promise, the showing of the letter
  and the typewriter. Everything else in the queue (status texts, fades, the countdown,
  the retry and accept effects) leaves the state these read untouched.
\<close>

fun is_flow :: "action \<Rightarrow> bool" where
  "is_flow ActivateGlobe = True"
| "is_flow WaitForGlobe = True"
| "is_flow StartArc = True"
| "is_flow ResolveGlobe = True"
| "is_flow ShowLetter = True"
| "is_flow TypeNextParagraph = True"
| "is_flow (TypeChar i) = True"
| "is_flow _ = False"

definition flow :: "page \<Rightarrow> (nat \<times> action) list" where
  "flow s = filter (\<lambda>t. is_flow (snd t)) (timers s)"

text \<open>
  Where the globe bridge and the typewriter stand once the begin button was clicked:
  polling for the library, the globe built and the arc due at \<open>d\<close>, the arc flying and the
  promise due at \<open>d\<close>, the promise resolved and the letter due at \<open>d\<close>, and then the
  typewriter: nothing to type, the next paragraph due at \<open>d\<close>, the next character due at
  \<open>d\<close>, all typed.
\<close>

datatype stage =
  Polling | Built nat | Arc nat | Resolved nat | NoType | Between nat | Typing nat | Done

text \<open>The one forward timer a stage keeps pending, and what the stage has added to the log
  of phase changes.\<close>

fun stage_flow :: "nat \<Rightarrow> stage \<Rightarrow> page \<Rightarrow> (nat \<times> action) list" where
  "stage_flow t0 Polling s = [(t0 + 200 * waitAttempts s, WaitForGlobe)]"
| "stage_flow t0 (Built d) s = [(d, StartArc)]"
| "stage_flow t0 (Arc d) s = [(d, ResolveGlobe)]"
| "stage_flow t0 (Resolved d) s = [(d, ShowLetter)]"
| "stage_flow t0 NoType s = []"
| "stage_flow t0 (Between d) s = [(d, TypeNextParagraph)]"
| "stage_flow t0 (Typing d) s = [(d, TypeChar (pIndex s))]"
| "stage_flow t0 Done s = []"

fun stage_log :: "stage \<Rightarrow> phase_event list" where
  "stage_log Polling = []"
| "stage_log (Built d) = []"
| "stage_log (Arc d) = []"
| "stage_log (Resolved d) = [Deactivated Globe]"
| "stage_log st = [Deactivated Globe, Activated Letter]"

text \<open>
  The paragraphs against the source texts \<open>src\<close>, with paragraph \<open>k\<close> the one in progress:
  the paragraphs before it hold their text in full and show, paragraph \<open>k\<close> holds \<open>part\<close>
  and shows exactly when \<open>vis\<close>, the paragraphs after it are empty and hidden.
\<close>

definition reveal :: "string list \<Rightarrow> nat \<Rightarrow> string \<Rightarrow> bool \<Rightarrow> para list \<Rightarrow> bool" where
  "reveal src k part vis ps =
     (length ps = length src \<and>
      (\<forall>j < length src.
         (j < k \<longrightarrow> ptext (ps ! j) = src ! j \<and> pshown (ps ! j)) \<and>
         (j = k \<longrightarrow> ptext (ps ! j) = part \<and> pshown (ps ! j) = vis) \<and>
         (k < j \<longrightarrow> ptext (ps ! j) = [] \<and> \<not> pshown (ps ! j))))"

definition typing_ok :: "para list option \<Rightarrow> page \<Rightarrow> bool" where
  "typing_ok ps0 s =
     (\<exists>ps. ps0 = Some ps \<and> paragraphs s \<noteq> None \<and> texts s = map ptext ps
        \<and> pIndex s \<le> length ps \<and> cursorCreated s)"

text \<open>How the promise came to be resolved: the library was seen defined, or the polling
  gave up at its fiftieth retry, 10 s after the click.\<close>

definition seen :: "page \<Rightarrow> bool" where
  "seen s = (\<exists>t \<le> clock s. globeDefined (env s) t)"

fun origin :: "nat \<Rightarrow> stage \<Rightarrow> page \<Rightarrow> bool" where
  "origin t0 Polling s = True"
| "origin t0 (Built d) s = seen s"
| "origin t0 (Arc d) s = seen s"
| "origin t0 st s = (seen s \<or> (waitAttempts s = 50 \<and> t0 + 10000 \<le> clock s))"

fun stage_ok :: "nat \<Rightarrow> para list option \<Rightarrow> bool \<Rightarrow> stage \<Rightarrow> page \<Rightarrow> bool" where
  "stage_ok t0 ps0 ag Polling s =
     (1 \<le> waitAttempts s \<and> waitAttempts s \<le> 50 \<and> \<not> globeResolved s \<and> paragraphs s = ps0
      \<and> \<not> cursorCreated s)"
| "stage_ok t0 ps0 ag (Built d) s =
     (t0 + 400 < d \<and> \<not> globeResolved s \<and> paragraphs s = ps0 \<and> \<not> cursorCreated s)"
| "stage_ok t0 ps0 ag (Arc d) s =
     (ag \<and> \<not> globeResolved s \<and> paragraphs s = ps0 \<and> \<not> cursorCreated s)"
| "stage_ok t0 ps0 ag (Resolved d) s =
     (ag \<and> globeResolved s \<and> paragraphs s = ps0 \<and> \<not> cursorCreated s)"
| "stage_ok t0 ps0 ag NoType s =
     (ag \<and> globeResolved s \<and> paragraphs s = ps0 \<and> (ps0 = None \<or> ps0 = Some [])
      \<and> \<not> cursorCreated s)"
| "stage_ok t0 ps0 ag (Between d) s =
     (ag \<and> globeResolved s \<and> typing_ok ps0 s \<and> pIndex s < length (texts s)
      \<and> reveal (texts s) (pIndex s) [] False (paras s))"
| "stage_ok t0 ps0 ag (Typing d) s =
     (ag \<and> globeResolved s \<and> typing_ok ps0 s \<and> pIndex s < length (texts s)
      \<and> charIndex s \<le> length (texts s ! pIndex s) \<and> cursorAt s = Some (pIndex s)
      \<and> reveal (texts s) (pIndex s) (take (charIndex s) (texts s ! pIndex s)) True (paras s))"
| "stage_ok t0 ps0 ag Done s =
     (ag \<and> globeResolved s \<and> typing_ok ps0 s \<and> pIndex s = length (texts s)
      \<and> reveal (texts s) (pIndex s) [] False (paras s))"

text \<open>
  The page after a begin click at time \<open>t0\<close>, with \<open>ps0\<close> the typewriter target of the
  markup: the forward timers are the activation of the globe (until it has fired, \<open>ag\<close>)
  followed by the stage's timer, the log of phase changes is the matching prefix of the
  fixed order, the begin button is off, nothing has thrown, and no forward timer is
  overdue.
\<close>

definition at_stage :: "nat \<Rightarrow> para list option \<Rightarrow> bool \<Rightarrow> stage \<Rightarrow> page \<Rightarrow> bool" where
  "at_stage t0 ps0 ag st s =
     (flow s = (if ag then [] else [(t0 + 400, ActivateGlobe)]) @ stage_flow t0 st s
      \<and> phaseLog s
          = Deactivated Landing # (if ag then [Activated Globe] else []) @ stage_log st
      \<and> \<not> btnBeginPointerEvents s \<and> uncaught s = 0
      \<and> stage_ok t0 ps0 ag st s \<and> origin t0 st s
      \<and> t0 \<le> clock s \<and> list_all (\<lambda>t. clock s \<le> fst t) (flow s))"

definition begun :: "nat \<Rightarrow> para list option \<Rightarrow> page \<Rightarrow> bool" where
  "begun t0 ps0 s = (\<exists>ag st. at_stage t0 ps0 ag st s)"

definition not_begun :: "para list option \<Rightarrow> page \<Rightarrow> bool" where
  "not_begun ps0 s =
     (flow s = [] \<and> phaseLog s = [] \<and> btnBeginPointerEvents s \<and> uncaught s = 0
      \<and> paragraphs s = ps0 \<and> \<not> cursorCreated s)"

text \<open>Two pages that agree on everything the invariant reads.\<close>

definition same_core :: "page \<Rightarrow> page \<Rightarrow> bool" where
  "same_core s s' =
     (flow s' = flow s \<and> phaseLog s' = phaseLog s
      \<and> btnBeginPointerEvents s' = btnBeginPointerEvents s \<and> uncaught s' = uncaught s
      \<and> waitAttempts s' = waitAttempts s \<and> globeResolved s' = globeResolved s
      \<and> paragraphs s' = paragraphs s \<and> texts s' = texts s \<and> pIndex s' = pIndex s
      \<and> charIndex s' = charIndex s \<and> cursorAt s' = cursorAt s
      \<and> cursorCreated s' = cursorCreated s \<and> env s' = env s)"








text \<open>
  What is left to do at a stage, counted in firings of forward timers: the retries still
  allowed, the steps to the letter, and for the typewriter two per paragraph plus one per
  character. Every firing of a forward timer lowers it.
\<close>

definition letter_work :: "string list \<Rightarrow> nat" where
  "letter_work src = sum_list (map (\<lambda>t. length t + 2) src)"

fun todo_stage :: "stage \<Rightarrow> page \<Rightarrow> nat" where
  "todo_stage Polling s = (51 - waitAttempts s) + 4 + letter_work (map ptext (paras s))"
| "todo_stage (Built d) s = 4 + letter_work (map ptext (paras s))"
| "todo_stage (Arc d) s = 3 + letter_work (map ptext (paras s))"
| "todo_stage (Resolved d) s = 2 + letter_work (map ptext (paras s))"
| "todo_stage NoType s = 0"
| "todo_stage (Between d) s = 1 + letter_work (drop (pIndex s) (texts s))"
| "todo_stage (Typing d) s =
     1 + letter_work (drop (pIndex s + 1) (texts s))
       + (length (texts s ! pIndex s) - charIndex s) + 1"
| "todo_stage Done s = 0"

definition todo :: "bool \<Rightarrow> stage \<Rightarrow> page \<Rightarrow> nat" where
  "todo ag st s = (if ag then 0 else 1) + todo_stage st s"

text \<open>
  A weight on the pending timers due by \<open>T\<close> that every firing lowers: a callback sets at
  most four timers, each due later than the one that fired, and a timer counts five times
  as much as one due a millisecond later.
\<close>

definition weight :: "nat \<Rightarrow> nat \<times> action \<Rightarrow> nat" where
  "weight T t = (if fst t \<le> T then 5 ^ (T + 1 - fst t) else 0)"

definition potential :: "nat \<Rightarrow> page \<Rightarrow> nat" where
  "potential T s = sum_list (map (weight T) (timers s))"

subsection \<open>Sample environments\<close>

text \<open>A \<open>Math.pow\<close> that is correctly rounded at whole exponents.\<close>

definition pow_whole :: "real \<Rightarrow> real \<Rightarrow> real" where
  "pow_whole x y = fl (x ^ nat \<lfloor>y\<rfloor>)"

text \<open>\<open>toLocaleString\<close> in the locale \<open>en-US\<close>: digits in groups of three.\<close>

fun group3 :: "string \<Rightarrow> string" where
  "group3 ds =
     (if length ds \<le> 3 then ds
      else group3 (take (length ds - 3) ds) @ '','' @ drop (length ds - 3) ds)"

declare group3.simps [simp del]

fun en_US :: "rounded \<Rightarrow> string" where
  "en_US NegZero = ''-0''"
| "en_US (Whole n) =
     (if n < 0 then ''-'' @ group3 (show_nat (nat (- n))) else group3 (show_nat (nat n)))"

text \<open>A page whose globe library never loads, opened 1d 1h 1m 1s and 11.2s before the
  target date.\<close>

definition env_never :: environment where
  "env_never = \<lparr>globeDefined = (\<lambda>t. False), confettiPresent = False, loadingPresent = True,
     wallEpoch = 1771045200000 - 90061000 - 11200, innerWidth = 400, rng = (\<lambda>n. 1 / 2),
     perfNow = (\<lambda>t. real t), mathPow = pow_whole, toLocaleString = en_US\<rparr>"

text \<open>A narrow viewport whose first random draw is 0 and whose later draws are 0.875.\<close>

definition env_dodge :: environment where
  "env_dodge = \<lparr>globeDefined = (\<lambda>t. True), confettiPresent = True, loadingPresent = False,
     wallEpoch = 0, innerWidth = 320, rng = (\<lambda>n. if n = 0 then 0 else 7 / 8),
     perfNow = (\<lambda>t. real t), mathPow = pow_whole, toLocaleString = en_US\<rparr>"

text \<open>A viewport 594 pixels wide whose random draws are all 0.\<close>

definition env_594 :: environment where
  "env_594 = \<lparr>globeDefined = (\<lambda>t. True), confettiPresent = True, loadingPresent = False,
     wallEpoch = 0, innerWidth = 594, rng = (\<lambda>n. 0),
     perfNow = (\<lambda>t. real t), mathPow = pow_whole, toLocaleString = en_US\<rparr>"

text \<open>
  A page whose globe library is loaded at the click and whose script starts 5.46875 ms
  after the time origin of \<open>performance.now()\<close>: a timer callback that runs when the virtual
  clock shows \<open>t\<close> reads \<open>t + 5.46875\<close>.
\<close>

definition env_frame :: environment where
  "env_frame = \<lparr>globeDefined = (\<lambda>t. True), confettiPresent = False, loadingPresent = False,
     wallEpoch = 0, innerWidth = 1280, rng = (\<lambda>n. 1 / 2),
     perfNow = (\<lambda>t. real t + 175 / 32), mathPow = pow_whole, toLocaleString = en_US\<rparr>"


section \<open>Properties\<close>

subsection \<open>Rounding to the nearest double\<close>

lemma rne_of_int [simp]: "rne (of_int n) = n"
  by (simp add: rne_def)

lemma rne_bounds: "\<lfloor>y\<rfloor> \<le> rne y" "rne y \<le> \<lfloor>y\<rfloor> + 1"
  by (simp_all add: rne_def Let_def)

lemma rne_le_int: "y \<le> of_int n \<Longrightarrow> rne y \<le> n"
proof -
  assume a: "y \<le> of_int n"
  show ?thesis
  proof (cases "y = of_int n")
    case True
    then show ?thesis by simp
  next
    case False
    with a have "y < of_int n" by simp
    then have "\<lfloor>y\<rfloor> < n" by (simp add: floor_less_iff)
    then show ?thesis
      using rne_bounds(2) [of y] by linarith
  qed
qed

lemma rne_ge_int: "of_int n \<le> y \<Longrightarrow> n \<le> rne y"
  using rne_bounds(1) [of y] by (meson le_floor_iff order_trans)

lemma rne_mono: "x \<le> y \<Longrightarrow> rne x \<le> rne y"
proof -
  assume a: "x \<le> y"
  have f: "\<lfloor>x\<rfloor> \<le> \<lfloor>y\<rfloor>" using a by (rule floor_mono)
  show ?thesis
  proof (cases "\<lfloor>x\<rfloor> = \<lfloor>y\<rfloor>")
    case True
    then show ?thesis
      using a by (auto simp: rne_def Let_def)
  next
    case False
    with f have "\<lfloor>x\<rfloor> + 1 \<le> \<lfloor>y\<rfloor>" by simp
    then show ?thesis
      using rne_bounds(2) [of x] rne_bounds(1) [of y] by linarith
  qed
qed

lemma rne_minus: "rne (- y) = - rne y"
proof (cases "y \<in> \<int>")
  case True
  then obtain n where "y = of_int n" by (auto elim: Ints_cases)
  then have "- y = of_int (- n)" by simp
  then show ?thesis
    using \<open>y = of_int n\<close> by (simp only: rne_of_int)
next
  case False
  then have ne: "y \<noteq> of_int \<lfloor>y\<rfloor>"
    by (metis Ints_of_int)
  have f: "\<lfloor>- y\<rfloor> = - \<lfloor>y\<rfloor> - 1"
    using ne by (simp add: floor_minus ceiling_altdef)
  have lt: "of_int \<lfloor>y\<rfloor> < y"
    using ne of_int_floor_le [of y] by linarith
  show ?thesis
    using lt by (auto simp: rne_def Let_def f)
qed


lemma pow2_powr: "pow2 k = 2 powr (of_int k)"
proof (cases "0 \<le> k")
  case True
  then have "(2::real) powr (of_int k) = 2 powr (real (nat k))" by simp
  also have "\<dots> = 2 ^ nat k" by (simp only: powr_realpow zero_less_numeral)
  finally show ?thesis
    using True by (simp add: pow2_def)
next
  case False
  then have "(2::real) powr (of_int k) = 2 powr (- real (nat (- k)))" by simp
  also have "\<dots> = 1 / 2 powr (real (nat (- k)))" by (rule powr_minus_divide)
  also have "\<dots> = 1 / 2 ^ nat (- k)" by (simp only: powr_realpow zero_less_numeral)
  finally show ?thesis
    using False by (simp add: pow2_def)
qed

lemma floor_log_between:
  assumes "(2::real) ^ k \<le> a" and "a < 2 ^ (k + 1)"
  shows "\<lfloor>log 2 a\<rfloor> = int k"
proof -
  have p: "0 < a"
    using assms(1) by (meson less_le_trans zero_less_numeral zero_less_power)
  have "real k \<le> log 2 a"
    using assms(1) p by (simp add: le_log_iff powr_realpow)
  moreover have "log 2 a < real (k + 1)"
    using assms(2) p by (simp add: log_less_iff powr_realpow del: power_Suc of_nat_Suc of_nat_add)
  ultimately show ?thesis
    by (intro floor_unique) simp_all
qed

lemma bitlen_floor_bounds:
  assumes "1 \<le> a"
  shows "(2::real) ^ nat (bitlen \<lfloor>a\<rfloor> - 1) \<le> a" and "a < 2 ^ (nat (bitlen \<lfloor>a\<rfloor> - 1) + 1)"
    and "0 \<le> bitlen \<lfloor>a\<rfloor> - 1"
proof -
  have m: "0 < \<lfloor>a\<rfloor>" using assms by simp
  note b = bitlen_bounds [OF m]
  have pos: "0 < bitlen \<lfloor>a\<rfloor>"
    using m bitlen_nonneg [of "\<lfloor>a\<rfloor>"] bitlen_eq_zero_iff [of "\<lfloor>a\<rfloor>"] by linarith
  then show "0 \<le> bitlen \<lfloor>a\<rfloor> - 1" by simp
  have "real_of_int (2 ^ nat (bitlen \<lfloor>a\<rfloor> - 1)) \<le> a"
    using b le_floor_iff by blast
  then show "(2::real) ^ nat (bitlen \<lfloor>a\<rfloor> - 1) \<le> a"
    by simp
  have e: "nat (bitlen \<lfloor>a\<rfloor> - 1) + 1 = nat (bitlen \<lfloor>a\<rfloor>)"
    using pos by simp
  have "a < real_of_int (2 ^ nat (bitlen \<lfloor>a\<rfloor>))"
    using b floor_less_iff by blast
  then have "a < 2 ^ nat (bitlen \<lfloor>a\<rfloor>)"
    by simp
  then show "a < 2 ^ (nat (bitlen \<lfloor>a\<rfloor> - 1) + 1)"
    unfolding e .
qed

lemma expo_log: "x \<noteq> 0 \<Longrightarrow> expo x = \<lfloor>log 2 \<bar>x\<bar>\<rfloor>"
proof -
  assume x: "x \<noteq> 0"
  define a where "a = \<bar>x\<bar>"
  consider "1 \<le> a" | "0 < a" "a < 1"
    using x unfolding a_def by fastforce
  then show ?thesis
  proof cases
    case 1
    note 2 = 1
    note b = bitlen_floor_bounds [OF 2]
    have "\<lfloor>log 2 a\<rfloor> = int (nat (bitlen \<lfloor>a\<rfloor> - 1))"
      using b(1,2) by (rule floor_log_between)
    then show ?thesis
      using 2 b(3) by (simp add: expo_def a_def [symmetric] Let_def)
  next
    case 2
    note 3 = 2
    define b where "b = 1 / a"
    have b1: "1 \<le> b" using 3 by (simp add: b_def)
    define k where "k = nat (bitlen \<lfloor>b\<rfloor> - 1)"
    note bb = bitlen_floor_bounds [OF b1, folded k_def]
    have kk: "bitlen \<lfloor>b\<rfloor> - 1 = int k"
      using bb(3) by (simp add: k_def)
    have l: "log 2 a = - log 2 b"
      using 3 by (simp add: b_def log_divide)
    have e: "expo x = (if b = 2 ^ k then - int k else - int k - 1)"
      using 3 by (simp add: expo_def a_def [symmetric] Let_def b_def [symmetric] kk pow2_def)
    show ?thesis
    proof (cases "b = 2 ^ k")
      case True
      then have "log 2 b = real k"
        by (simp add: log_nat_power)
      moreover have "- real k = real_of_int (- int k)"
        by simp
      ultimately have "\<lfloor>- log 2 b\<rfloor> = - int k"
        by (simp only: floor_of_int)
      then show ?thesis
        unfolding e a_def [symmetric] l using True by simp
    next
      case False
      with bb(1) have lt: "2 ^ k < b" by simp
      have p: "0 < b" using b1 by simp
      have "real k < log 2 b"
        using lt p by (simp add: less_log_iff powr_realpow)
      moreover have "log 2 b < real (k + 1)"
        using bb(2) p by (simp add: log_less_iff powr_realpow del: power_Suc of_nat_Suc of_nat_add)
      ultimately have "\<lfloor>- log 2 b\<rfloor> = - int k - 1"
        by (intro floor_unique) simp_all
      then show ?thesis
        unfolding e a_def [symmetric] l using False by simp
    qed
  qed
qed

lemma fl_powr:
  "fl x = (if x = 0 then 0
      else of_int (rne (x / 2 powr (of_int (expo x) - 52))) * 2 powr (of_int (expo x) - 52))"
  by (simp add: fl_def pow2_powr)

lemma two_powr_int: "(2::real) powr (of_int (int n)) = 2 ^ n"
  by (simp add: powr_realpow)

lemma expo_bounds:
  assumes "x \<noteq> 0"
  shows "(2::real) powr (of_int (expo x)) \<le> \<bar>x\<bar>" and "\<bar>x\<bar> < 2 powr (of_int (expo x) + 1)"
proof -
  have p: "0 < \<bar>x\<bar>" using assms by simp
  have "of_int (expo x) \<le> log 2 \<bar>x\<bar>"
    by (simp add: expo_log [OF assms])
  then show "(2::real) powr (of_int (expo x)) \<le> \<bar>x\<bar>"
    using p by (simp add: le_log_iff)
  have "log 2 \<bar>x\<bar> < of_int (expo x) + 1"
    by (simp add: expo_log [OF assms])
  then show "\<bar>x\<bar> < 2 powr (of_int (expo x) + 1)"
    using p by (simp add: log_less_iff)
qed

lemma expo_unique:
  assumes "(2::real) powr (of_int k) \<le> \<bar>x\<bar>" and "\<bar>x\<bar> < 2 powr (of_int k + 1)"
  shows "expo x = k"
proof -
  have p: "0 < \<bar>x\<bar>"
    using assms(1) powr_gt_zero [of 2 "of_int k"] by linarith
  have a: "of_int k \<le> log 2 \<bar>x\<bar>"
    using assms(1) p by (simp add: le_log_iff)
  have b: "log 2 \<bar>x\<bar> < of_int k + 1"
    using assms(2) p by (simp add: log_less_iff)
  have "x \<noteq> 0" using p by auto
  from expo_log [OF this] show ?thesis
    using floor_unique [OF a b] by simp
qed

lemma expo_minus: "expo (- x) = expo x"
  by (simp add: expo_def)

lemma expo_double: "x \<noteq> 0 \<Longrightarrow> expo (2 * x) = expo x + 1"
proof (rule expo_unique)
  assume x: "x \<noteq> 0"
  have "(2::real) powr (of_int (expo x + 1)) = 2 * (2::real) powr (of_int (expo x))"
    by (simp add: powr_add)
  then show "(2::real) powr (of_int (expo x + 1)) \<le> \<bar>2 * x\<bar>"
    using expo_bounds(1) [OF x] by (simp add: abs_mult)
  have "(2::real) powr (of_int (expo x + 1) + 1) = 2 * (2::real) powr (of_int (expo x) + 1)"
    by (simp add: powr_add)
  then show "\<bar>2 * x\<bar> < 2 powr (of_int (expo x + 1) + 1)"
    using expo_bounds(2) [OF x] by (simp add: abs_mult)
qed

lemma fl_zero [simp]: "fl 0 = 0"
  by (simp add: fl_powr)

lemma fl_minus: "fl (- x) = - fl x"
  by (simp add: fl_powr expo_minus rne_minus)

lemma fl_double: "fl (2 * x) = 2 * fl x"
proof (cases "x = 0")
  case True
  then show ?thesis by simp
next
  case False
  have "real_of_int (expo x) - 51 = (real_of_int (expo x) - 52) + 1"
    by simp
  then have u: "(2::real) powr (of_int (expo x) - 51) = 2 * (2::real) powr (of_int (expo x) - 52)"
    by (simp only: powr_add) simp
  show ?thesis
    using False by (simp add: fl_powr expo_double u)
qed

lemma fl_half: "fl (x / 2) = fl x / 2"
  using fl_double [of "x / 2"] by simp

text \<open>The scaled significand lies between \<open>2^52\<close> and \<open>2^53\<close>.\<close>

lemma significand_bounds:
  assumes "0 < x"
  shows "2 ^ 52 \<le> x / 2 powr (of_int (expo x) - 52)"
    and "x / 2 powr (of_int (expo x) - 52) < 2 ^ 53"
proof -
  have x: "x \<noteq> 0" "\<bar>x\<bar> = x" using assms by simp_all
  have u: "(2::real) powr (of_int (expo x) - 52) = (2::real) powr (of_int (expo x)) / 2 ^ 52"
    by (simp add: powr_diff)
  have p: "0 < (2::real) powr (of_int (expo x))" by simp
  show "2 ^ 52 \<le> x / 2 powr (of_int (expo x) - 52)"
    using expo_bounds(1) [OF x(1)] p unfolding u x(2)
    by (simp add: field_simps)
  have "(2::real) powr (of_int (expo x) + 1) = 2 * (2::real) powr (of_int (expo x))"
    by (simp add: powr_add)
  then have "x < 2 * 2 powr (of_int (expo x))"
    using expo_bounds(2) [OF x(1)] x(2) by simp
  then show "x / 2 powr (of_int (expo x) - 52) < 2 ^ 53"
    using p unfolding u by (simp add: field_simps)
qed

lemma fl_binade:
  assumes "0 < x"
  shows "(2::real) powr (of_int (expo x)) \<le> fl x" and "fl x \<le> 2 powr (of_int (expo x) + 1)"
proof -
  let ?u = "(2::real) powr (of_int (expo x) - 52)"
  let ?t = "x / ?u"
  have u0: "0 < ?u" by simp
  have a: "(2 :: int) ^ 52 \<le> rne ?t"
    using significand_bounds(1) [OF assms] by (intro rne_ge_int) simp
  have b: "rne ?t \<le> (2 :: int) ^ 53"
    using significand_bounds(2) [OF assms] by (intro rne_le_int) simp
  have f: "fl x = of_int (rne ?t) * ?u"
    using assms by (simp add: fl_powr)
  have lo: "(2::real) powr (of_int (expo x)) = 2 ^ 52 * ?u"
    by (simp add: powr_diff)
  have hi: "(2::real) powr (of_int (expo x) + 1) = 2 ^ 53 * ?u"
    by (simp add: powr_diff powr_add)
  have "(2::real) ^ 52 \<le> of_int (rne ?t)"
    using a by (metis of_int_le_iff of_int_numeral of_int_power)
  then show "(2::real) powr (of_int (expo x)) \<le> fl x"
    unfolding f lo using u0 by (simp add: mult_right_mono)
  have "of_int (rne ?t) \<le> (2::real) ^ 53"
    using b by (metis of_int_le_iff of_int_numeral of_int_power)
  then show "fl x \<le> 2 powr (of_int (expo x) + 1)"
    unfolding f hi using u0 by (simp add: mult_right_mono)
qed

lemma fl_pos: "0 < x \<Longrightarrow> 0 < fl x"
  using fl_binade(1) [of x] powr_gt_zero [of 2 "of_int (expo x)"] by linarith

lemma expo_mono: "0 < x \<Longrightarrow> x \<le> y \<Longrightarrow> expo x \<le> expo y"
proof -
  assume a: "0 < x" "x \<le> y"
  then have "\<lfloor>log 2 \<bar>x\<bar>\<rfloor> \<le> \<lfloor>log 2 \<bar>y\<bar>\<rfloor>"
    by (intro floor_mono) simp
  then show ?thesis
    using a by (simp add: expo_log)
qed

lemma fl_mono_pos:
  assumes "0 < x" and "x \<le> y"
  shows "fl x \<le> fl y"
proof (cases "expo x = expo y")
  case True
  have y: "0 < y" using assms by simp
  let ?u = "(2::real) powr (of_int (expo y) - 52)"
  have "x / ?u \<le> y / ?u"
    using assms(2) by (simp add: divide_right_mono)
  then have "rne (x / ?u) \<le> rne (y / ?u)"
    by (rule rne_mono)
  then have "of_int (rne (x / ?u)) * ?u \<le> of_int (rne (y / ?u)) * ?u"
    by (simp add: mult_right_mono)
  then show ?thesis
    using assms(1) y True by (simp add: fl_powr)
next
  case False
  have y: "0 < y" using assms by simp
  from False expo_mono [OF assms] have "expo x + 1 \<le> expo y" by simp
  then have "real_of_int (expo x) + 1 \<le> real_of_int (expo y)"
    by (metis of_int_add of_int_1 of_int_le_iff)
  then have "(2::real) powr (of_int (expo x) + 1) \<le> 2 powr (of_int (expo y))"
    by (intro powr_mono) simp_all
  then show ?thesis
    using fl_binade(2) [OF assms(1)] fl_binade(1) [OF y] by linarith
qed

lemma fl_mono: "x \<le> y \<Longrightarrow> fl x \<le> fl y"
proof -
  assume a: "x \<le> y"
  consider "0 < x" | "x \<le> 0" "0 \<le> y" | "y < 0" by linarith
  then show ?thesis
  proof cases
    case 1
    then show ?thesis using a by (rule fl_mono_pos)
  next
    case 2
    have "fl x \<le> 0"
    proof (cases "x = 0")
      case True
      then show ?thesis by simp
    next
      case False
      with 2 have "0 < - x" by simp
      from fl_pos [OF this] show ?thesis by (simp add: fl_minus)
    qed
    moreover have "0 \<le> fl y"
    proof (cases "y = 0")
      case True
      then show ?thesis by simp
    next
      case False
      with 2 have "0 < y" by simp
      from fl_pos [OF this] show ?thesis by simp
    qed
    ultimately show ?thesis by simp
  next
    case 3
    then have "0 < - y" "- y \<le> - x" using a by simp_all
    from fl_mono_pos [OF this] show ?thesis by (simp add: fl_minus)
  qed
qed


text \<open>A significand of at most 53 bits times a power of two is a double.\<close>

lemma fl_repr_less:
  assumes "\<bar>n\<bar> < 2 ^ 53"
  shows "fl (of_int n * 2 powr (of_int k)) = of_int n * 2 powr (of_int k)"
proof (cases "n = 0")
  case True
  then show ?thesis by simp
next
  case False
  define x :: real where "x = of_int n * 2 powr (of_int k)"
  have x0: "x \<noteq> 0" using False by (simp add: x_def)
  have ax: "\<bar>x\<bar> = of_int \<bar>n\<bar> * 2 powr (of_int k)"
    by (simp add: x_def abs_mult)
  have "real_of_int \<bar>n\<bar> < 2 ^ 53"
    using assms by (metis of_int_less_iff of_int_numeral of_int_power)
  then have "\<bar>x\<bar> < 2 ^ 53 * 2 powr (of_int k)"
    unfolding ax by (simp add: mult_strict_right_mono)
  also have "\<dots> = 2 powr (of_int k + 53)"
    by (simp add: powr_add)
  finally have "2 powr (of_int (expo x)) < (2::real) powr (of_int k + 53)"
    using expo_bounds(1) [OF x0] by linarith
  then have "real_of_int (expo x) < of_int k + 53"
    by simp
  then have j: "0 \<le> k + 52 - expo x"
    by linarith
  define j where "j = nat (k + 52 - expo x)"
  have "real_of_int k - (real_of_int (expo x) - 52) = real_of_int (int j)"
    using j by (simp add: j_def)
  then have q: "2 powr (of_int k) / 2 powr (of_int (expo x) - 52) = (2::real) ^ j"
    by (metis powr_diff two_powr_int)
  have "x / 2 powr (of_int (expo x) - 52) = of_int n * (2 powr (of_int k) / 2 powr (of_int (expo x) - 52))"
    by (simp add: x_def)
  also have "\<dots> = of_int (n * 2 ^ j)"
    unfolding q by simp
  finally have t: "x / 2 powr (of_int (expo x) - 52) = of_int (n * 2 ^ j)" .
  have "fl x = of_int (n * 2 ^ j) * 2 powr (of_int (expo x) - 52)"
    using x0 unfolding fl_powr t rne_of_int by simp
  also have "\<dots> = x"
    using t by (simp add: field_simps)
  finally show ?thesis
    by (simp add: x_def)
qed

lemma fl_repr:
  assumes "\<bar>n\<bar> \<le> 2 ^ 53"
  shows "fl (of_int n * 2 powr (of_int k)) = of_int n * 2 powr (of_int k)"
proof (cases "\<bar>n\<bar> < 2 ^ 53")
  case True
  then show ?thesis by (rule fl_repr_less)
next
  case False
  with assms have "\<bar>n\<bar> = 2 ^ 53" by simp
  then consider "n = 2 * 2 ^ 52" | "n = - (2 * 2 ^ 52)" by fastforce
  then show ?thesis
  proof cases
    case 1
    have "fl (2 * (of_int (2 ^ 52) * 2 powr (of_int k))) = 2 * (of_int (2 ^ 52) * 2 powr (of_int k))"
      unfolding fl_double by (subst fl_repr_less) simp_all
    then show ?thesis
      unfolding 1 by simp
  next
    case 2
    have "fl (2 * (of_int (- (2 ^ 52)) * 2 powr (of_int k))) = 2 * (of_int (- (2 ^ 52)) * 2 powr (of_int k))"
      unfolding fl_double by (subst fl_repr_less) simp_all
    then show ?thesis
      unfolding 2 by simp
  qed
qed

lemma fl_idem [simp]: "fl (fl x) = fl x"
proof -
  have pos: "fl (fl y) = fl y" if "0 < y" for y
  proof -
    let ?t = "y / 2 powr (of_int (expo y) - 52)"
    have "0 \<le> ?t" using that by simp
    then have "0 \<le> rne ?t"
      by (intro rne_ge_int) simp
    moreover have "rne ?t \<le> 2 ^ 53"
      using significand_bounds(2) [OF that] by (intro rne_le_int) simp
    ultimately have "\<bar>rne ?t\<bar> \<le> 2 ^ 53" by simp
    from fl_repr [OF this, of "expo y - 52"] show ?thesis
      using that by (simp add: fl_powr)
  qed
  consider "0 < x" | "x = 0" | "0 < - x" by linarith
  then show ?thesis
  proof cases
    case 1
    then show ?thesis by (rule pos)
  next
    case 2
    then show ?thesis by simp
  next
    case 3
    from pos [OF this] show ?thesis by (simp add: fl_minus)
  qed
qed

lemma fl_of_int: "\<bar>n\<bar> \<le> 2 ^ 53 \<Longrightarrow> fl (of_int n) = of_int n"
  using fl_repr [of n 0] by simp

lemma fl_exact:
  assumes "x * 2 ^ m = of_int n" and "\<bar>n\<bar> \<le> 2 ^ 53"
  shows "fl x = x"
proof -
  have h: "2 powr (of_int (- int m)) = 1 / (2::real) ^ m"
    by (simp add: powr_minus_divide powr_realpow)
  have a: "x = of_int n / 2 ^ m"
    using assms(1) by (simp add: eq_divide_eq)
  have b: "of_int n * 2 powr (of_int (- int m)) = of_int n / (2::real) ^ m"
    unfolding h by simp
  show ?thesis
    using fl_repr [OF assms(2), of "- int m"] unfolding b a [symmetric] .
qed

text \<open>Rounding a number whose binade is known.\<close>

lemma fl_eval:
  assumes "2 ^ 52 \<le> \<bar>x\<bar> * 2 ^ m" and "\<bar>x\<bar> * 2 ^ m < 2 ^ 53"
  shows "fl x = of_int (rne (x * 2 ^ m)) / 2 ^ m"
proof -
  have p: "(2::real) powr (of_int (52 - int m)) = 2 ^ 52 / 2 ^ m"
    by (simp add: powr_diff powr_realpow)
  have q: "(2::real) powr (of_int (52 - int m) + 1) = 2 ^ 53 / 2 ^ m"
    by (simp add: powr_diff powr_add powr_realpow)
  have e: "expo x = 52 - int m"
  proof (rule expo_unique)
    show "2 powr (of_int (52 - int m)) \<le> \<bar>x\<bar>"
      unfolding p using assms(1) by (simp add: field_simps)
    show "\<bar>x\<bar> < 2 powr (of_int (52 - int m) + 1)"
      unfolding q using assms(2) by (simp add: field_simps)
  qed
  have u: "(2::real) powr (of_int (expo x) - 52) = 1 / 2 ^ m"
    unfolding e by (simp add: powr_minus_divide powr_realpow)
  have "x \<noteq> 0" using assms(1) by auto
  then show ?thesis
    by (simp add: fl_powr u)
qed

lemma fl_error: "\<bar>fl x - x\<bar> \<le> \<bar>x\<bar> / 2 ^ 53"
proof -
  have pos: "\<bar>fl y - y\<bar> \<le> y / 2 ^ 53" if "0 < y" for y
  proof -
    let ?u = "(2::real) powr (of_int (expo y) - 52)"
    let ?t = "y / ?u"
    have u0: "0 < ?u" by simp
    have "of_int (rne ?t) - ?t \<le> 1 / 2" "- (1 / 2) \<le> of_int (rne ?t) - ?t"
      by (auto simp: rne_def Let_def) linarith+
    then have "\<bar>of_int (rne ?t) - ?t\<bar> \<le> 1 / 2" by linarith
    then have "\<bar>of_int (rne ?t) - ?t\<bar> * ?u \<le> 1 / 2 * ?u"
      using u0 by (intro mult_right_mono) simp_all
    moreover have "(of_int (rne ?t) - ?t) * ?u = fl y - y"
      using that by (simp add: fl_powr field_simps)
    then have "\<bar>of_int (rne ?t) - ?t\<bar> * ?u = \<bar>fl y - y\<bar>"
      using u0 by (metis abs_mult abs_of_pos)
    moreover have "2 ^ 52 * ?u \<le> y"
      using significand_bounds(1) [OF that] u0 by (simp add: field_simps)
    ultimately show ?thesis by (simp add: field_simps)
  qed
  consider "0 < x" | "x = 0" | "0 < - x" by linarith
  then show ?thesis
  proof cases
    case 1
    from pos [OF this] show ?thesis using 1 by simp
  next
    case 2
    then show ?thesis by simp
  next
    case 3
    from pos [OF this] show ?thesis using 3 by (simp add: fl_minus)
  qed
qed

text \<open>The decimal literals of the script, as doubles.\<close>

lemma fl_tenth: "fl (1 / 10) = 3602879701896397 / 2 ^ 55"
  by (subst fl_eval [where m = 56]) (simp_all add: rne_def Let_def)

lemma fl_eight_tenths: "fl (8 / 10) = 3602879701896397 / 2 ^ 52"
  by (subst fl_eval [where m = 53]) (simp_all add: rne_def Let_def)

lemma fl_numeral: "numeral k \<le> (2::int) ^ 53 \<Longrightarrow> fl (numeral k) = numeral k"
  using fl_of_int [of "numeral k"] by simp

lemma fl_one [simp]: "fl 1 = 1"
  using fl_of_int [of 1] by simp

lemma fl_half_one [simp]: "fl (1 / 2) = 1 / 2"
  using fl_half [of 1] by simp

subsection \<open>Unfolding the handlers\<close>

lemma typeChar_unfold:
  "typeChar i s =
     (if charIndex s < length (texts s ! i) then
        (if cursorAt s = Some i then
           schedule TYPEWRITER_SPEED (TypeChar i)
             ((set_para i (\<lambda>p. p\<lparr>ptext := ptext p @ [texts s ! i ! charIndex s]\<rparr>) s)
                \<lparr>charIndex := charIndex s + 1\<rparr>)
         else s\<lparr>uncaught := uncaught s + 1\<rparr>)
      else
        if pIndex s + 1 < length (paras s) then
          schedule 400 TypeNextParagraph (s\<lparr>pIndex := pIndex s + 1\<rparr>)
        else schedule 1500 CursorFade (s\<lparr>pIndex := pIndex s + 1\<rparr>))"
  by (subst typeChar.simps, subst typeNextParagraph.simps)
     (simp add: Let_def paras_def)

lemma typeNextParagraph_unfold:
  "typeNextParagraph s =
     (if pIndex s \<ge> length (paras s) then schedule 1500 CursorFade s
      else typeChar (pIndex s)
             ((set_para (pIndex s) (\<lambda>p. p\<lparr>pshown := True\<rparr>) (s\<lparr>charIndex := 0\<rparr>))
                \<lparr>cursorAt := Some (pIndex s)\<rparr>))"
  by (subst typeNextParagraph.simps) (simp add: Let_def set_para_def)

lemmas handler_defs =
  schedule_def set_para_def typeChar_unfold typeNextParagraph_unfold startTypewriter_def
  update_countdown_def startCountdown_def animateLatencyCounter_def dodge_def
  createAmbientParticles_def show_letter_def transitionToLetter_def transitionToGlobe_def
  resolve_def scheduleStatusUpdates_def start_arc_def buildGlobe_def waitForGlobe_def
  initGlobe_def confetti_def

lemma exec_retryCount: "retryCount (exec a s) = retryCount s"
  by (cases a) (simp_all add: handler_defs Let_def split: option.splits)

lemma fire_retryCount: "retryCount (fire s) = retryCount s"
  by (simp add: fire_def exec_retryCount split: option.splits prod.splits)

lemma latency_update_other [simp]:
  "env (latency_update now s) = env s"
  "clock (latency_update now s) = clock s"
  "timers (latency_update now s) = timers s"
  "rngUsed (latency_update now s) = rngUsed s"
  "uncaught (latency_update now s) = uncaught s"
  "consoleWarnings (latency_update now s) = consoleWarnings s"
  "landingActive (latency_update now s) = landingActive s"
  "globeActive (latency_update now s) = globeActive s"
  "letterActive (latency_update now s) = letterActive s"
  "phaseLog (latency_update now s) = phaseLog s"
  "btnBeginPointerEvents (latency_update now s) = btnBeginPointerEvents s"
  "btnBeginOpacity0 (latency_update now s) = btnBeginOpacity0 s"
  "starfieldRunning (latency_update now s) = starfieldRunning s"
  "bodyOverflowAuto (latency_update now s) = bodyOverflowAuto s"
  "romantic (latency_update now s) = romantic s"
  "waitAttempts (latency_update now s) = waitAttempts s"
  "globeResolved (latency_update now s) = globeResolved s"
  "globeBuilt (latency_update now s) = globeBuilt s"
  "loadingOpacity0 (latency_update now s) = loadingOpacity0 s"
  "loadingDisplayed (latency_update now s) = loadingDisplayed s"
  "arcShown (latency_update now s) = arcShown s"
  "statusOverlayVisible (latency_update now s) = statusOverlayVisible s"
  "statPacket (latency_update now s) = statPacket s"
  "statPacketArriving (latency_update now s) = statPacketArriving s"
  "statPacketDelivered (latency_update now s) = statPacketDelivered s"
  "ceVisible (latency_update now s) = ceVisible s"
  "ambientDots (latency_update now s) = ambientDots s"
  "paragraphs (latency_update now s) = paragraphs s"
  "texts (latency_update now s) = texts s"
  "pIndex (latency_update now s) = pIndex s"
  "charIndex (latency_update now s) = charIndex s"
  "cursorCreated (latency_update now s) = cursorCreated s"
  "cursorAt (latency_update now s) = cursorAt s"
  "cursorFaded (latency_update now s) = cursorFaded s"
  "countdownText (latency_update now s) = countdownText s"
  "retryCount (latency_update now s) = retryCount s"
  "retryErrorText (latency_update now s) = retryErrorText s"
  "retryErrorVisible (latency_update now s) = retryErrorVisible s"
  "btnRetryShake (latency_update now s) = btnRetryShake s"
  "btnRetryDodge (latency_update now s) = btnRetryDodge s"
  "btnRetryHiding (latency_update now s) = btnRetryHiding s"
  "btnRetryTransform (latency_update now s) = btnRetryTransform s"
  "confettiBursts (latency_update now s) = confettiBursts s"
  "askOpacity0 (latency_update now s) = askOpacity0 s"
  "askDisplayed (latency_update now s) = askDisplayed s"
  "acceptedVisible (latency_update now s) = acceptedVisible s"
  by (simp_all add: latency_update_def Let_def split: option.splits)

lemma run_append:
  "run (es @ fs) s = (case run es s of None \<Rightarrow> None | Some s' \<Rightarrow> run fs s')"
  by (induction es arbitrary: s) simp_all

subsection \<open>Retry state machine\<close>

lemma begin_click_retryCount: "retryCount (begin_click s) = retryCount s"
  by (simp add: begin_click_def handler_defs Let_def)

lemma handleAccept_retryCount: "retryCount (handleAccept s) = retryCount s"
  by (simp add: handleAccept_def handler_defs Let_def)

lemma handleRetry_count:
  "retryCount (handleRetry s) = (if retryCount s < 3 then retryCount s + 1 else retryCount s)"
  by (simp add: handleRetry_def retryMessages_def schedule_def Let_def)

lemma handleRetry_noop: "3 \<le> retryCount s \<Longrightarrow> handleRetry s = s"
  by (simp add: handleRetry_def retryMessages_def)

lemma handleRetry_message:
  "retryCount s < 3 \<Longrightarrow>
     retryErrorText (handleRetry s) = retryMessages ! retryCount s \<and>
     retryErrorVisible (handleRetry s)"
  by (simp add: handleRetry_def retryMessages_def schedule_def Let_def)

lemma apply_event_retryCount:
  "retryCount (apply_event ev s) =
     (if ev = ClickRetry \<and> retryCount s < 3 then retryCount s + 1 else retryCount s)"
  by (cases ev)
     (simp_all add: fire_retryCount begin_click_retryCount handleAccept_retryCount
        handleRetry_count)

lemma run_retryCount:
  "run es s0 = Some s \<Longrightarrow> retryCount s0 \<le> 3 \<Longrightarrow>
     retryCount s = min 3 (retryCount s0 + count_list es ClickRetry)"
proof (induction es arbitrary: s0)
  case Nil
  then show ?case by simp
next
  case (Cons ev es)
  from Cons.prems(1) have r: "run es (apply_event ev s0) = Some s"
    by (simp split: if_splits)
  have b: "retryCount (apply_event ev s0) \<le> 3"
    using Cons.prems(2) by (simp add: apply_event_retryCount)
  show ?case
    using Cons.IH [OF r b] Cons.prems(2)
    by (auto simp: apply_event_retryCount)
qed

lemma init_retryCount: "retryCount (init e ps) = 0"
  by (simp add: init_def)

text \<open>
  Claim C4. In any run from the initial page, after \<open>k\<close> clicks on the retry button the
  counter is \<open>min 3 k\<close>, whatever timers and other clicks came in between. While
  \<open>k < 3\<close> the next call raises the counter to \<open>k + 1\<close> and shows \<open>retryMessages[k]\<close>; from
  \<open>k = 3\<close> on a call returns the page as it was. No event lowers the counter or takes
  it past the number of messages.
\<close>

theorem retry_state_machine:
  assumes "run es (init e ps) = Some s" and "k = count_list es ClickRetry"
  shows "retryCount s = min (length retryMessages) k
    \<and> (k < 3 \<longrightarrow> retryCount (handleRetry s) = k + 1
                \<and> retryErrorText (handleRetry s) = retryMessages ! k
                \<and> retryErrorVisible (handleRetry s))
    \<and> (3 \<le> k \<longrightarrow> retryCount s = 3 \<and> handleRetry s = s)
    \<and> (\<forall>ev. retryCount s \<le> retryCount (apply_event ev s)
              \<and> retryCount (apply_event ev s) \<le> length retryMessages)"
proof -
  have c: "retryCount s = min 3 k"
    using run_retryCount [OF assms(1)] assms(2) by (simp add: init_retryCount)
  have len: "length retryMessages = 3"
    by (simp add: retryMessages_def)
  show ?thesis
    using c handleRetry_message [of s] handleRetry_noop [of s]
    by (auto simp: len handleRetry_count apply_event_retryCount)
qed

lemmas run_defs = init_def begin_click_def handleAccept_def handleRetry_def fire_def
  retryMessages_def handler_defs

theorem retry_state_machine_witness:
  "run [ClickRetry, ClickRetry] (init env_never None)
     = Some (handleRetry (handleRetry (init env_never None)))
   \<and> retryCount (handleRetry (handleRetry (init env_never None))) = 2
   \<and> retryErrorText (handleRetry (handleRetry (handleRetry (init env_never None))))
       = ''Rerouting to Accept...''"
proof -
  have r: "run [ClickRetry, ClickRetry] (init env_never None)
     = Some (handleRetry (handleRetry (init env_never None)))"
    by (simp add: run_defs Let_def)
  have k: "2 = count_list [ClickRetry, ClickRetry] ClickRetry"
    by simp
  show ?thesis
    using retry_state_machine [OF r k] r
    by (simp add: retryMessages_def)
qed

subsection \<open>Countdown, eased counter, dodge offset, empty typewriter\<close>

lemma padStart2_show_nat: "n < 100 \<Longrightarrow> padStart2 (show_nat n) = two_digits n"
proof (cases "n < 10")
  case True
  then show ?thesis
    by (simp add: padStart2_def two_digits_def show_nat.simps [of n])
next
  case False
  assume "n < 100"
  with False have "n div 10 < 10" by simp
  with False show ?thesis
    by (simp add: padStart2_def two_digits_def show_nat.simps [of n]
        show_nat.simps [of "n div 10"])
qed

lemma hours_lt: "0 < diff \<Longrightarrow> nat ((diff mod 86400000) div 3600000) < 100" for diff :: int
proof -
  have "diff mod 86400000 < 86400000" by simp
  then have "(diff mod 86400000) div 3600000 < 24" by simp
  then show ?thesis by simp
qed

lemma minutes_lt: "nat ((diff mod 3600000) div 60000) < 100" for diff :: int
proof -
  have "diff mod 3600000 < 3600000" by simp
  then have "(diff mod 3600000) div 60000 < 60" by simp
  then show ?thesis by simp
qed

lemma seconds_lt: "nat ((diff mod 60000) div 1000) < 100" for diff :: int
proof -
  have "diff mod 60000 < 60000" by simp
  then have "(diff mod 60000) div 1000 < 60" by simp
  then show ?thesis by simp
qed

lemma countdown_render_pos:
  "0 < diff \<Longrightarrow> countdown_render diff =
     ''// Valentine's Day in ''
     @ (if 0 < diff div 86400000 then show_nat (nat (diff div 86400000)) @ ''d '' else [])
     @ padStart2 (show_nat (nat (diff mod 86400000 div 3600000))) @ ''h ''
     @ padStart2 (show_nat (nat (diff mod 3600000 div 60000))) @ ''m ''
     @ padStart2 (show_nat (nat (diff mod 60000 div 1000))) @ ''s''"
  by (simp add: countdown_render_def Let_def)

lemma countdown_spec_pos:
  "0 < diff \<Longrightarrow> countdown_spec diff =
     ''// Valentine's Day in ''
     @ (if diff div 86400000 = 0 then [] else show_nat (nat (diff div 86400000)) @ ''d '')
     @ two_digits (nat (diff mod 86400000 div 3600000)) @ ''h ''
     @ two_digits (nat (diff mod 3600000 div 60000)) @ ''m ''
     @ two_digits (nat (diff mod 60000 div 1000)) @ ''s''"
proof -
  assume pos: "0 < diff"
  have a: "diff mod 86400000 mod 3600000 = diff mod 3600000"
    by (rule mod_mod_cancel) simp
  have b: "diff mod 3600000 mod 60000 = diff mod 60000"
    by (rule mod_mod_cancel) simp
  show ?thesis
    using pos unfolding countdown_spec_def Let_def minus_div_mult_eq_mod a b
    by simp
qed

lemma countdown_render_eq_spec: "countdown_render diff = countdown_spec diff"
proof (cases "diff \<le> 0")
  case True
  then show ?thesis by (simp add: countdown_render_def countdown_spec_def)
next
  case False
  then have pos: "0 < diff" by simp
  have "0 \<le> diff div 86400000"
    using pos by (simp add: pos_imp_zdiv_nonneg_iff)
  then have d0: "(0 < diff div 86400000) = (diff div 86400000 \<noteq> 0)"
    by linarith
  show ?thesis
    unfolding countdown_render_pos [OF pos] countdown_spec_pos [OF pos]
      padStart2_show_nat [OF hours_lt [OF pos]] padStart2_show_nat [OF minutes_lt]
      padStart2_show_nat [OF seconds_lt] d0
    by simp
qed

lemma countdown_example: "countdown_render 90061000 = ''// Valentine's Day in 1d 01h 01m 01s''"
  by (simp add: countdown_render_def Let_def padStart2_def show_nat.simps)


text \<open>
  Claim C5. Every tick, and the immediate first render, writes the specification's rendering
  of \<open>target - now\<close>: the completion message when the difference is not positive, else
  the cascade with the days field dropped at zero and two-digit hours, minutes and seconds.
  The function of the source and the specification's wording agree on every difference, and
  90061000 ms renders as 1d 01h 01m 01s.
\<close>

theorem countdown_tick_renders:
  "countdownText (exec CountdownTick s)
     = countdown_spec (valentineDate - (wallEpoch (env s) + int (clock s)))
   \<and> countdownText (startCountdown s)
     = countdown_spec (valentineDate - (wallEpoch (env s) + int (clock s)))
   \<and> countdown_render diff = countdown_spec diff
   \<and> countdown_render 90061000 = ''// Valentine's Day in 1d 01h 01m 01s''"
  by (simp add: countdown_render_eq_spec [symmetric] countdown_example
      startCountdown_def update_countdown_def schedule_def)

lemma latency_duration_eq: "latency_duration = 5600"
  unfolding latency_duration_def ARC_FLIGHT_TIME_def fl_eight_tenths
  by (subst fl_eval [where m = 40]) (simp_all add: rne_def Let_def)

text \<open>From the end of the count on, a frame writes the distance and asks for no further
  frame, whatever \<open>Math.pow\<close> is away from \<open>pow(+0, 3) = +0\<close>, which the language fixes.\<close>

lemma latency_update_full:
  assumes "latencyFrame s = Some start" and "latency_duration \<le> now - start"
    and "mathPow (env s) 0 3 = 0"
  shows "statLatency (latency_update now s) = toLocaleString (env s) (Whole (int DISTANCE_MILES))"
    and "latencyFrame (latency_update now s) = None"
proof -
  have "fl 5600 \<le> fl (now - start)"
    using assms(2) unfolding latency_duration_eq by (rule fl_mono)
  then have e: "5600 \<le> fl (now - start)"
    by (simp add: fl_numeral)
  then have "fl 1 \<le> fl (fl (now - start) / 5600)"
    by (intro fl_mono) simp
  then have p: "min (fl (fl (now - start) / 5600)) 1 = 1"
    by simp
  have v: "latency_value (env s) 1 = Whole (int DISTANCE_MILES)"
    by (simp add: latency_value_def assms(3) DISTANCE_MILES_def fl_numeral math_round_def)
  show "statLatency (latency_update now s) = toLocaleString (env s) (Whole (int DISTANCE_MILES))"
    by (simp add: latency_update_def assms(1) Let_def latency_duration_eq p v)
  show "latencyFrame (latency_update now s) = None"
    by (simp add: latency_update_def assms(1) Let_def latency_duration_eq p)
qed

lemma fl_dyadic:
  "\<bar>n\<bar> \<le> 2 ^ 53 \<Longrightarrow> fl (of_int n / 2 ^ m) = of_int n / 2 ^ m"
  by (rule fl_exact [where m = m and n = n]) simp_all

lemma frame_elapsed: "fl (1500 - (1500 + 175 / 32)) = - (175 / 32)"
  using fl_dyadic [of "- 175" 5] by simp

lemma frame_progress: "fl (- (175 / 32) / 5600) = - (1 / 1024)"
  using fl_dyadic [of "- 1" 10] by simp

lemma frame_value: "latency_value env_frame (- (1 / 1024)) = Whole (- 9)"
proof -
  have a: "fl (1 - - (1 / 1024)) = 1025 / 1024"
    using fl_dyadic [of 1025 10] by simp
  have b: "pow_whole (1025 / 1024) 3 = 1076890625 / 2 ^ 30"
    using fl_dyadic [of 1076890625 30] by (simp add: pow_whole_def power3_eq_cube)
  have c: "fl (1 - 1076890625 / 2 ^ 30) = - (3148801 / 2 ^ 30)"
    using fl_dyadic [of "- 3148801" 30] by simp
  have d: "fl (- (3148801 / 2 ^ 30) * 3084) = - (2427725571 / 2 ^ 28)"
    using fl_dyadic [of "- 2427725571" 28] by simp
  have "math_round (- (2427725571 / 2 ^ 28)) = Whole (- 9)"
    by (simp add: math_round_def)
  then show ?thesis
    unfolding latency_value_def Let_def DISTANCE_MILES_def
    by (simp only: a b c d env_frame_def environment.simps of_nat_numeral)
qed

lemma frame_clamped: "latency_value env_frame (clamp01 (- (1 / 1024))) = Whole 0"
proof -
  have "pow_whole 1 3 = 1"
    by (simp add: pow_whole_def)
  then show ?thesis
    by (simp add: latency_value_def clamp01_def env_frame_def math_round_def)
qed

lemma frame_run:
  "\<exists>s. run [ClickBegin, Fire, Fire, Fire] (init env_frame None) = Some s
     \<and> clock s = 1500 \<and> latencyFrame s = Some (1500 + 175 / 32) \<and> env s = env_frame"
  by (simp add: run_defs Let_def env_frame_def)

text \<open>
  Claim C6. The counter runs over \<open>7000 * 0.8\<close> ms, which is 5600 exactly in doubles, and
  the frame that finds the count over writes the distance itself. Below that the script
  bounds the progress from above only: \<open>Math.min(elapsed / duration, 1)\<close> has no
  counterpart at 0. The time stamp a frame callback receives is the start of the frame,
  and a frame whose start precedes the \<open>performance.now()\<close> read by the timer callback that
  asked for it gives a negative \<open>elapsed\<close>. On the page \<open>env_frame\<close> the arc starts when the
  clock shows 1500 and reads 1505.46875; the first frame, stamped 1500, has progress
  \<open>-1/1024\<close> and writes \<open>-9\<close> into the counter that documents itself as going from 0 to
  the distance, where the progress clamped to the unit interval gives \<open>0\<close>. The frame
  stamped 5600 ms after the start then writes \<open>3,084\<close> and ends the loop.
\<close>

theorem latency_counter_below_zero:
  "latency_duration = 5600
   \<and> map_option statLatency
         (run [ClickBegin, Fire, Fire, Fire, Frame 1500] (init env_frame None)) = Some ''-9''
   \<and> map_option latencyFrame
         (run [ClickBegin, Fire, Fire, Fire, Frame 1500] (init env_frame None))
       = Some (Some (1500 + 175 / 32))
   \<and> min (fl (fl (1500 - (1500 + 175 / 32)) / latency_duration)) 1 = - (1 / 1024)
   \<and> toLocaleString env_frame (latency_value env_frame (clamp01 (- (1 / 1024)))) = ''0''
   \<and> map_option statLatency
         (run [ClickBegin, Fire, Fire, Fire, Frame 1500, Frame (1500 + 175 / 32 + 5600)]
            (init env_frame None)) = Some ''3,084''
   \<and> map_option latencyFrame
         (run [ClickBegin, Fire, Fire, Fire, Frame 1500, Frame (1500 + 175 / 32 + 5600)]
            (init env_frame None)) = Some None"
proof -
  obtain s where s: "run [ClickBegin, Fire, Fire, Fire] (init env_frame None) = Some s"
    and f: "latencyFrame s = Some (1500 + 175 / 32)" and e: "env s = env_frame"
    using frame_run by blast
  let ?s1 = "latency_update 1500 s"
  let ?s2 = "latency_update (1500 + 175 / 32 + 5600) ?s1"
  have p: "min (fl (fl (1500 - (1500 + 175 / 32)) / latency_duration)) 1 = - (1 / 1024)"
    unfolding frame_elapsed latency_duration_eq frame_progress by simp
  have u: "?s1 = s\<lparr>statLatency := toLocaleString env_frame (Whole (- 9)),
                    latencyFrame := Some (1500 + 175 / 32)\<rparr>"
    unfolding latency_update_def f option.case Let_def p e frame_value by simp
  have n: "toLocaleString env_frame (Whole (- 9)) = ''-9''"
    by (simp add: env_frame_def group3.simps show_nat.simps)
  have z: "toLocaleString env_frame (Whole 0) = ''0''"
    by (simp add: env_frame_def group3.simps show_nat.simps)
  have "run [ClickBegin, Fire, Fire, Fire, Frame 1500] (init env_frame None)
      = run [Frame 1500] s"
    using run_append [of "[ClickBegin, Fire, Fire, Fire]" "[Frame 1500]" "init env_frame None"]
    unfolding s append_Cons append_Nil option.case .
  moreover have "run [Frame 1500] s = Some ?s1"
    using f by simp
  ultimately have r1: "run [ClickBegin, Fire, Fire, Fire, Frame 1500] (init env_frame None)
      = Some ?s1"
    by (rule trans)
  have a: "statLatency ?s1 = ''-9''"
    unfolding u by (simp add: n)
  have g: "latencyFrame ?s1 = Some (1500 + 175 / 32)"
    unfolding u by simp
  have "run [ClickBegin, Fire, Fire, Fire, Frame 1500, Frame (1500 + 175 / 32 + 5600)]
          (init env_frame None)
      = run [Frame (1500 + 175 / 32 + 5600)] ?s1"
    using run_append [of "[ClickBegin, Fire, Fire, Fire, Frame 1500]"
        "[Frame (1500 + 175 / 32 + 5600)]" "init env_frame None"]
    unfolding r1 append_Cons append_Nil option.case .
  moreover have "run [Frame (1500 + 175 / 32 + 5600)] ?s1 = Some ?s2"
    using g by simp
  ultimately have r2:
    "run [ClickBegin, Fire, Fire, Fire, Frame 1500, Frame (1500 + 175 / 32 + 5600)]
          (init env_frame None) = Some ?s2"
    by (rule trans)
  have l: "latency_duration \<le> 1500 + 175 / 32 + 5600 - (1500 + 175 / 32)"
    by (simp add: latency_duration_eq)
  have w: "mathPow (env ?s1) 0 3 = 0"
    by (simp add: e env_frame_def pow_whole_def)
  have d: "toLocaleString (env ?s1) (Whole (int DISTANCE_MILES)) = ''3,084''"
    by (simp add: e env_frame_def DISTANCE_MILES_def group3.simps show_nat.simps)
  have b: "statLatency ?s2 = ''3,084''"
    using latency_update_full(1) [OF g l w] unfolding d .
  have c: "latencyFrame ?s2 = None"
    using g l w by (rule latency_update_full(2))
  have k: "toLocaleString env_frame (latency_value env_frame (clamp01 (- (1 / 1024)))) = ''0''"
    unfolding frame_clamped by (rule z)
  show ?thesis
    unfolding r1 r2 option.map a b c g
    using latency_duration_eq p k by blast
qed

text \<open>The computed bound of the dodge is a double between 0 and 60, within two roundings
  of a tenth of the width.\<close>

lemma dodge_maxX_bounds:
  assumes "0 \<le> w"
  shows "0 \<le> dodge_maxX w" and "dodge_maxX w \<le> 60" and "fl (dodge_maxX w) = dodge_maxX w"
    and "dodge_maxX w \<le> w / 10 * (1 + 1 / 2 ^ 53) ^ 2"
proof -
  have t: "0 \<le> fl (1 / 10)"
    by (simp add: fl_tenth)
  then have "fl 0 \<le> fl (w * fl (1 / 10))"
    using assms by (intro fl_mono) simp
  then show "0 \<le> dodge_maxX w"
    by (simp add: dodge_maxX_def)
  show "dodge_maxX w \<le> 60"
    by (simp add: dodge_maxX_def)
  show "fl (dodge_maxX w) = dodge_maxX w"
    by (simp add: dodge_maxX_def min_def fl_numeral)
  have a: "fl (1 / 10) \<le> 1 / 10 * (1 + 1 / 2 ^ 53)"
    by (simp add: fl_tenth)
  define y where "y = w * fl (1 / 10)"
  have y0: "0 \<le> y"
    using assms t by (simp add: y_def)
  have "fl y - y \<le> \<bar>fl y - y\<bar>"
    by simp
  also have "\<dots> \<le> \<bar>y\<bar> / 2 ^ 53"
    by (rule fl_error)
  also have "\<dots> = y / 2 ^ 53"
    using y0 by simp
  finally have "fl y \<le> y * (1 + 1 / 2 ^ 53)"
    by (simp add: algebra_simps)
  then have "fl (w * fl (1 / 10)) \<le> w * fl (1 / 10) * (1 + 1 / 2 ^ 53)"
    by (simp add: y_def)
  also have "\<dots> \<le> w * (1 / 10 * (1 + 1 / 2 ^ 53)) * (1 + 1 / 2 ^ 53)"
    using a assms by (intro mult_right_mono mult_left_mono) simp_all
  finally have "fl (w * fl (1 / 10)) \<le> w / 10 * (1 + 1 / 2 ^ 53) ^ 2"
    by (simp add: power2_eq_square algebra_simps)
  then show "dodge_maxX w \<le> w / 10 * (1 + 1 / 2 ^ 53) ^ 2"
    by (simp add: dodge_maxX_def min_le_iff_disj)
qed

lemma dodge_offset_bounds:
  assumes "0 \<le> w" "0 \<le> r1" "r1 < 1" "0 \<le> r2" "r2 < 1"
  shows "\<bar>fst (dodge_offset w r1 r2)\<bar> \<le> dodge_maxX w
    \<and> - 50 \<le> snd (dodge_offset w r1 r2) \<and> snd (dodge_offset w r1 r2) \<le> - 20"
proof -
  define m where "m = dodge_maxX w"
  note mb = dodge_maxX_bounds [OF assms(1), folded m_def]
  define a where "a = fl (r1 - 1 / 2)"
  have "fl (- (1 / 2)) \<le> a"
    unfolding a_def using assms(2) by (intro fl_mono) simp
  moreover have "a \<le> fl (1 / 2)"
    unfolding a_def using assms(3) by (intro fl_mono) simp
  ultimately have a: "- (1 / 2) \<le> a" "a \<le> 1 / 2"
    by (simp_all add: fl_minus)
  have h: "fl (m / 2) = m / 2"
    by (simp add: fl_half mb(3))
  have "a * m \<le> m / 2" "- (m / 2) \<le> a * m"
    using a mb(1) by (auto simp: mult_right_mono dest: mult_right_mono [of _ _ m])
  then have "fl (a * m) \<le> fl (m / 2)" "fl (- (m / 2)) \<le> fl (a * m)"
    by (auto intro!: fl_mono)
  then have b: "fl (a * m) \<le> m / 2" "- (m / 2) \<le> fl (a * m)"
    by (simp_all add: fl_minus h)
  have "fl (fl (a * m) * 2) = 2 * fl (a * m)"
    using fl_double [of "fl (a * m)"] by (simp add: mult.commute)
  then have x: "\<bar>fl (fl (a * m) * 2)\<bar> \<le> m"
    using b by simp
  have "fl 0 \<le> fl (r2 * 30)"
    using assms(4) by (intro fl_mono) simp
  moreover have "fl (r2 * 30) \<le> fl 30"
    using assms(5) by (intro fl_mono) simp
  ultimately have c: "0 \<le> fl (r2 * 30)" "fl (r2 * 30) \<le> 30"
    by (simp_all add: fl_numeral)
  have "fl (- 50) \<le> fl (- 20 - fl (r2 * 30))"
    using c by (intro fl_mono) simp
  moreover have "fl (- 20 - fl (r2 * 30)) \<le> fl (- 20)"
    using c by (intro fl_mono) simp
  ultimately have y: "- 50 \<le> fl (- 20 - fl (r2 * 30))" "fl (- 20 - fl (r2 * 30)) \<le> - 20"
    by (simp_all add: fl_minus fl_numeral)
  show ?thesis
    using x y by (simp add: dodge_offset_def Let_def m_def a_def)
qed

lemma dodge_maxX_594: "dodge_maxX 594 = 2089951702076621 / 2 ^ 45"
proof -
  have "fl (594 * fl (1 / 10)) = 8359806808306484 / 2 ^ 47"
    unfolding fl_tenth
    by (subst fl_eval [where m = 47]) (simp_all add: rne_def Let_def)
  then show ?thesis
    by (simp add: dodge_maxX_def)
qed

lemma dodge_maxX_320: "dodge_maxX 320 = 32"
proof -
  have "fl (320 * fl (1 / 10)) = 32"
    unfolding fl_tenth
    by (subst fl_eval [where m = 47]) (simp_all add: rne_def Let_def)
  then show ?thesis
    by (simp add: dodge_maxX_def)
qed

lemma dodge_offset_594:
  "dodge_offset 594 0 0 = (- (2089951702076621 / 2 ^ 45), - 20)"
proof -
  have m: "fl (2089951702076621 / 2 ^ 45) = 2089951702076621 / 2 ^ 45"
    using fl_dyadic [of 2089951702076621 45] by simp
  have a: "fl (- (1 / 2) * (2089951702076621 / 2 ^ 45)) = - (2089951702076621 / 2 ^ 46)"
    using fl_dyadic [of "- 2089951702076621" 46] by simp
  have b: "fl (- (2089951702076621 / 2 ^ 46) * 2) = - (2089951702076621 / 2 ^ 45)"
    using fl_dyadic [of "- 2089951702076621" 45] by simp
  show ?thesis
    unfolding dodge_offset_def Let_def dodge_maxX_594
    by (simp only: diff_0 fl_minus fl_half_one mult_zero_left fl_zero diff_zero a b
        fl_numeral [of "num.Bit0 (num.Bit0 (num.Bit1 (num.Bit0 num.One)))"])
       (simp add: fl_numeral fl_minus)
qed

lemma dodge_offset_320:
  "dodge_offset 320 0 (7 / 8) = (- 32, - (185 / 4))"
proof -
  have a: "fl (7 / 8 * 30) = 105 / 4"
    using fl_dyadic [of 105 2] by simp
  have b: "fl (- 20 - 105 / 4) = - (185 / 4)"
    using fl_dyadic [of "- 185" 2] by simp
  have c: "fl (- (1 / 2) * 32) = - 16"
    by (simp add: fl_minus fl_numeral)
  have d: "fl (- 16 * 2) = - 32"
    by (simp add: fl_minus fl_numeral)
  show ?thesis
    unfolding dodge_offset_def Let_def dodge_maxX_320
    by (simp only: diff_0 fl_minus fl_half_one a b c d)
qed

text \<open>
  Claim C9, as stated, fails by a rounding: \<open>0.1\<close> is not a double, the literal is the double
  just above it, and on a viewport 594 pixels wide \<open>window.innerWidth * 0.1\<close> is
  59.400000000000006. With a draw of 0 the button moves left by exactly that, which is
  more than a tenth of the width.
\<close>

theorem retry_dodge_exceeds_tenth:
  "retryCount (handleRetry (init env_594 None)) = 1
   \<and> map_option btnRetryTransform
         (run [ClickRetry, ClickRetry, Fire, Fire, Fire] (init env_594 None))
       = Some (Some (- (2089951702076621 / 2 ^ 45), - 20))
   \<and> min 60 (innerWidth env_594 / 10) < \<bar>- (2089951702076621 / 2 ^ 45) :: real\<bar>"
proof -
  have "map_option btnRetryTransform
         (run [ClickRetry, ClickRetry, Fire, Fire, Fire] (init env_594 None))
       = Some (Some (dodge_offset 594 0 0))"
    by (simp add: run_defs Let_def env_594_def)
  then have "map_option btnRetryTransform
         (run [ClickRetry, ClickRetry, Fire, Fire, Fire] (init env_594 None))
       = Some (Some (- (2089951702076621 / 2 ^ 45), - 20))"
    unfolding dodge_offset_594 .
  moreover have "retryCount (handleRetry (init env_594 None)) = 1"
    by (simp add: run_defs Let_def)
  moreover have "min 60 (innerWidth env_594 / 10) < \<bar>- (2089951702076621 / 2 ^ 45) :: real\<bar>"
    by (simp add: env_594_def)
  ultimately show ?thesis by blast
qed

text \<open>
  Claim C9, amended. A retry click at counter 1 queues the end of the shake and, behind it
  and due at the same instant 500 ms later, the dodge. Whatever \<open>Math.random()\<close> returns in
  \<open>[0, 1)\<close>, the dodge moves the button horizontally by at most the bound the script computes,
  \<open>Math.min(60, window.innerWidth * 0.1)\<close> in double arithmetic, which is at most 60px and
  at most a tenth of the viewport width enlarged by its two roundings, and vertically by
  between -50px and -20px.
\<close>

theorem retry_dodge_bounded:
  assumes "retryCount s = 1" and "0 \<le> innerWidth (env s)"
    and "\<forall>n. 0 \<le> rng (env s) n \<and> rng (env s) n < 1"
  shows "timers (handleRetry s)
       = timers s @ [(clock s + 500, ShakeOff), (clock s + 500, Dodge),
                     (clock s + 2000, RetryErrorHide)]
    \<and> (\<forall>s'. env s' = env s \<longrightarrow>
          (\<exists>x y. btnRetryTransform (exec Dodge s') = Some (x, y)
             \<and> \<bar>x\<bar> \<le> dodge_maxX (innerWidth (env s)) \<and> - 50 \<le> y \<and> y \<le> - 20))
    \<and> dodge_maxX (innerWidth (env s)) \<le> 60
    \<and> dodge_maxX (innerWidth (env s)) \<le> innerWidth (env s) / 10 * (1 + 1 / 2 ^ 53) ^ 2"
proof -
  have t: "timers (handleRetry s)
       = timers s @ [(clock s + 500, ShakeOff), (clock s + 500, Dodge),
                     (clock s + 2000, RetryErrorHide)]"
    using assms(1) by (simp add: handleRetry_def retryMessages_def schedule_def Let_def)
  have d: "\<exists>x y. btnRetryTransform (exec Dodge s') = Some (x, y)
             \<and> \<bar>x\<bar> \<le> dodge_maxX (innerWidth (env s)) \<and> - 50 \<le> y \<and> y \<le> - 20"
    if e: "env s' = env s" for s'
  proof -
    let ?o = "dodge_offset (innerWidth (env s)) (rng (env s) (rngUsed s'))
                 (rng (env s) (rngUsed s' + 1))"
    have "btnRetryTransform (exec Dodge s') = Some (fst ?o, snd ?o)"
      by (simp add: dodge_def e)
    moreover have "\<bar>fst ?o\<bar> \<le> dodge_maxX (innerWidth (env s)) \<and> - 50 \<le> snd ?o \<and> snd ?o \<le> - 20"
      using assms(2,3) by (intro dodge_offset_bounds) auto
    ultimately show ?thesis by blast
  qed
  show ?thesis
    using t d dodge_maxX_bounds(2,4) [OF assms(2)] by blast
qed

theorem retry_dodge_bounded_witness:
  "retryCount (handleRetry (init env_dodge None)) = 1
   \<and> timers (handleRetry (handleRetry (init env_dodge None)))
       = [(500, ShakeOff), (2000, RetryErrorHide), (500, ShakeOff), (500, Dodge),
          (2000, RetryErrorHide)]
   \<and> btnRetryTransform (exec Dodge (handleRetry (handleRetry (init env_dodge None))))
       = Some (- 32, - (185 / 4))
   \<and> dodge_maxX (innerWidth env_dodge) = 32"
proof -
  let ?s = "handleRetry (init env_dodge None)"
  have c: "retryCount ?s = 1"
    by (simp add: run_defs Let_def)
  have e: "env ?s = env_dodge"
    by (simp add: run_defs Let_def)
  have w: "0 \<le> innerWidth (env ?s)"
    unfolding e by (simp add: env_dodge_def)
  have r: "\<forall>n. 0 \<le> rng (env ?s) n \<and> rng (env ?s) n < 1"
    unfolding e by (simp add: env_dodge_def)
  have t: "timers ?s = [(500, ShakeOff), (2000, RetryErrorHide)]"
    by (simp add: run_defs Let_def)
  have k: "clock ?s = 0"
    by (simp add: run_defs Let_def)
  have "btnRetryTransform (exec Dodge (handleRetry ?s)) = Some (dodge_offset 320 0 (7 / 8))"
    by (simp add: run_defs Let_def env_dodge_def)
  then have d: "btnRetryTransform (exec Dodge (handleRetry ?s)) = Some (- 32, - (185 / 4))"
    unfolding dodge_offset_320 .
  have m: "dodge_maxX (innerWidth env_dodge) = 32"
    by (simp add: env_dodge_def dodge_maxX_320)
  have "timers (handleRetry ?s)
       = timers ?s @ [(clock ?s + 500, ShakeOff), (clock ?s + 500, Dodge),
                     (clock ?s + 2000, RetryErrorHide)]"
    using retry_dodge_bounded [OF c w r] by blast
  then have "timers (handleRetry ?s)
       = [(500, ShakeOff), (2000, RetryErrorHide), (500, ShakeOff), (500, Dodge),
          (2000, RetryErrorHide)]"
    unfolding t k by simp
  then show ?thesis
    using c d m by blast
qed

text \<open>
  Claim C10. With no typewriter target, or a target without paragraphs, \<open>startTypewriter\<close>
  returns the page as it was: no cursor, no timer, no text touched.
\<close>

theorem typewriter_empty_noop:
  "paragraphs s = None \<or> paragraphs s = Some [] \<Longrightarrow> startTypewriter s = s"
  by (auto simp: startTypewriter_def)

theorem typewriter_empty_noop_witness:
  "startTypewriter (init env_never None) = init env_never None
   \<and> startTypewriter (init env_never (Some [])) = init env_never (Some [])"
proof -
  have a: "paragraphs (init env_never None) = None \<or> paragraphs (init env_never None) = Some []"
    by (simp add: init_def)
  have b: "paragraphs (init env_never (Some [])) = None
     \<or> paragraphs (init env_never (Some [])) = Some []"
    by (simp add: init_def)
  show ?thesis
    using typewriter_empty_noop [OF a] typewriter_empty_noop [OF b] by simp
qed

subsection \<open>The begin button\<close>

lemma earliest_mem: "earliest ts = Some t \<Longrightarrow> t \<in> set ts"
  by (induction ts arbitrary: t) (auto split: option.splits if_splits)

lemma earliest_None: "(earliest ts = None) = (ts = [])"
  by (cases ts) (auto split: option.splits)

lemma earliest_least: "earliest ts = Some t \<Longrightarrow> u \<in> set ts \<Longrightarrow> fst t \<le> fst u"
proof (induction ts arbitrary: t)
  case Nil
  then show ?case by simp
next
  case (Cons x xs)
  show ?case
  proof (cases "earliest xs")
    case None
    then have "xs = []" by (simp add: earliest_None)
    with Cons.prems None show ?thesis by simp
  next
    case (Some v)
    have v: "u \<in> set xs \<Longrightarrow> fst v \<le> fst u"
      using Cons.IH [OF Some] .
    from Cons.prems Some show ?thesis
      using v by (auto split: if_splits)
  qed
qed

lemma exec_clock: "clock (exec a s) = clock s"
  by (cases a) (simp_all add: handler_defs Let_def split: option.splits)

lemma exec_timers_mono: "set (timers s) \<subseteq> set (timers (exec a s))"
  by (cases a) (auto simp add: handler_defs Let_def split: option.splits)

lemma exec_asked:
  "askDisplayed (exec a s) = (askDisplayed s \<and> a \<noteq> AskHide)"
  "acceptedVisible (exec a s) = (acceptedVisible s \<or> a = AskHide)"
  by (cases a; simp add: handler_defs Let_def split: option.splits)+



lemma handleAccept_facts:
  "clock (handleAccept s) = clock s"
  "set (timers s) \<subseteq> set (timers (handleAccept s))"
  "askDisplayed (handleAccept s) = askDisplayed s"
  "acceptedVisible (handleAccept s) = acceptedVisible s"
  "btnBeginPointerEvents (handleAccept s) = btnBeginPointerEvents s"
  by (auto simp: handleAccept_def handler_defs Let_def)

lemma handleRetry_facts:
  "clock (handleRetry s) = clock s"
  "set (timers s) \<subseteq> set (timers (handleRetry s))"
  "askDisplayed (handleRetry s) = askDisplayed s"
  "acceptedVisible (handleRetry s) = acceptedVisible s"
  "btnBeginPointerEvents (handleRetry s) = btnBeginPointerEvents s"
  by (auto simp: handleRetry_def handler_defs Let_def)

lemma begin_click_facts:
  "clock (begin_click s) = clock s"
  "set (timers s) \<subseteq> set (timers (begin_click s))"
  "askDisplayed (begin_click s) = askDisplayed s"
  "acceptedVisible (begin_click s) = acceptedVisible s"
  "\<not> btnBeginPointerEvents (begin_click s)"
  by (auto simp: begin_click_def handler_defs Let_def)




text \<open>
  Claim C8. The click handler of the begin button turns the button's pointer events off in
  its synchronous part, before it suspends at \<open>await\<close>, and nothing turns them on again:
  the pointer cannot reach the button a second time. The listener itself has no guard,
  though, and \<open>pointer-events: none\<close> with \<open>opacity: 0\<close> stops the pointer only. The button
  keeps the focus the first click gave it, so a key press on it, or \<open>click()\<close> from a
  script, dispatches a second \<open>click\<close> event, and the handler runs its whole sequence
  again: on the page \<open>env_never\<close> the landing section is deactivated twice, and the timer of
  the globe transition and the poll for the globe library are queued twice, side by side.
  The same happens when the second event arrives after the first timer has fired.
\<close>

theorem begin_handler_runs_again:
  "\<not> btnBeginPointerEvents (begin_click (init env_never None))
   \<and> phaseLog (begin_click (begin_click (init env_never None)))
       = [Deactivated Landing, Deactivated Landing]
   \<and> timers (begin_click (begin_click (init env_never None)))
       = [(400, ActivateGlobe), (200, WaitForGlobe), (400, ActivateGlobe), (200, WaitForGlobe)]
   \<and> phaseLog (begin_click (fire (begin_click (init env_never None))))
       = [Deactivated Landing, Deactivated Landing]
   \<and> timers (begin_click (fire (begin_click (init env_never None))))
       = [(400, ActivateGlobe), (400, WaitForGlobe), (600, ActivateGlobe), (400, WaitForGlobe)]"
  by (simp add: run_defs Let_def env_never_def)

subsection \<open>Every firing lowers the weight of the queue\<close>

lemma fire_unfold:
  assumes "enabled Fire s"
  obtains due a where "earliest (timers s) = Some (due, a)"
    and "fire s = exec a (s\<lparr>clock := max (clock s) due, timers := remove1 (due, a) (timers s)\<rparr>)"
proof -
  from assms obtain due a where e: "earliest (timers s) = Some (due, a)"
    by (cases "earliest (timers s)") (auto simp: earliest_None)
  then show ?thesis
    using that by (simp add: fire_def)
qed

lemma weight_later:
  assumes "due \<le> T" and "due < fst u"
  shows "weight T u \<le> 5 ^ (T - due)"
proof (cases "fst u \<le> T")
  case True
  then have "T + 1 - fst u \<le> T - due"
    using assms(2) by simp
  then have "(5::nat) ^ (T + 1 - fst u) \<le> 5 ^ (T - due)"
    by (intro power_increasing) simp_all
  then show ?thesis
    using True by (simp add: weight_def)
next
  case False
  then show ?thesis
    by (simp add: weight_def)
qed

lemma sum_list_bounded:
  "(\<And>u. u \<in> set us \<Longrightarrow> f u \<le> (W::nat)) \<Longrightarrow> sum_list (map f us) \<le> length us * W"
  by (induction us) (simp_all add: add_mono)

lemma exec_new_timers:
  "\<exists>new. timers (exec a y) = timers y @ new \<and> length new \<le> 4
     \<and> (\<forall>t \<in> set new. clock y < fst t)"
  by (cases a)
     (simp_all add: handler_defs Let_def TYPEWRITER_SPEED_def ARC_FLIGHT_TIME_def
        CE_DISPLAY_TIME_def ARRIVING_THRESHOLD_def split: option.splits)

lemma potential_fire:
  assumes e: "earliest (timers s) = Some (due, a)" and d: "due \<le> T"
  shows "potential T (fire s) < potential T s"
proof -
  let ?y = "s\<lparr>clock := max (clock s) due, timers := remove1 (due, a) (timers s)\<rparr>"
  have f: "fire s = exec a ?y"
    by (simp add: fire_def e)
  from exec_new_timers [of a ?y] obtain new where
    n: "timers (exec a ?y) = remove1 (due, a) (timers s) @ new" and l: "length new \<le> 4"
    and c: "\<forall>t \<in> set new. max (clock s) due < fst t"
    by auto
  have w: "weight T (due, a) = 5 * 5 ^ (T - due)"
    using d by (simp add: weight_def Suc_diff_le)
  have "weight T u \<le> 5 ^ (T - due)" if "u \<in> set new" for u
    using weight_later [OF d, of u] c that by auto
  then have "sum_list (map (weight T) new) \<le> length new * 5 ^ (T - due)"
    by (rule sum_list_bounded)
  also have "\<dots> \<le> 4 * 5 ^ (T - due)"
    using l by simp
  finally have b: "sum_list (map (weight T) new) \<le> 4 * 5 ^ (T - due)" .
  have r: "sum_list (map (weight T) (timers s))
      = weight T (due, a) + sum_list (map (weight T) (remove1 (due, a) (timers s)))"
    using earliest_mem [OF e] by (rule sum_list_map_remove1)
  have "potential T (fire s)
      = sum_list (map (weight T) (remove1 (due, a) (timers s))) + sum_list (map (weight T) new)"
    by (simp add: potential_def f n)
  also have "\<dots> < sum_list (map (weight T) (remove1 (due, a) (timers s))) + weight T (due, a)"
  proof -
    have "(0::nat) < 5 ^ (T - due)" by simp
    then show ?thesis
      using b w by linarith
  qed
  also have "\<dots> = potential T s"
    by (simp add: potential_def r)
  finally show ?thesis .
qed

lemma run_fires_add:
  "run (replicate n Fire) s = Some s1 \<Longrightarrow> run (replicate m Fire) s1 = Some s2 \<Longrightarrow>
     run (replicate (n + m) Fire) s = Some s2"
  by (induction n arbitrary: s) (auto split: if_splits)

subsection \<open>Accept\<close>

lemma accept_pending_fire:
  assumes "accept_pending t x" and "enabled Fire x"
  shows "accept_pending t (fire x)"
proof -
  from assms(2) obtain due a where e: "earliest (timers x) = Some (due, a)"
    by (cases "earliest (timers x)") (auto simp: earliest_None)
  let ?y = "x\<lparr>clock := max (clock x) due, timers := remove1 (due, a) (timers x)\<rparr>"
  have f: "fire x = exec a ?y"
    by (simp add: fire_def e)
  show ?thesis
  proof (cases "\<not> askDisplayed x \<and> acceptedVisible x")
    case True
    then show ?thesis
      by (simp add: accept_pending_def f exec_asked)
  next
    case False
    with assms(1) have m: "(t + 800, AskHide) \<in> set (timers x)" and c: "clock x \<le> t + 800"
      by (simp_all add: accept_pending_def)
    have d: "due \<le> t + 800"
      using earliest_least [OF e m] by simp
    show ?thesis
    proof (cases "a = AskHide")
      case True
      then show ?thesis
        by (simp add: accept_pending_def f)
    next
      case False
      then have "(t + 800, AskHide) \<in> set (timers ?y)" using m by simp
      then have "(t + 800, AskHide) \<in> set (timers (exec a ?y))"
        using exec_timers_mono by blast
      then show ?thesis
        using c d by (simp add: accept_pending_def f exec_clock)
    qed
  qed
qed

lemma accept_pending_click:
  assumes "accept_pending t x" and "clock y = clock x"
    and "set (timers x) \<subseteq> set (timers y)"
    and "askDisplayed y = askDisplayed x" and "acceptedVisible y = acceptedVisible x"
  shows "accept_pending t y"
  using assms by (auto simp: accept_pending_def)

lemma accept_pending_step:
  assumes "accept_pending t x" and "enabled ev x"
  shows "accept_pending t (apply_event ev x)"
proof (cases ev)
  case Fire
  then show ?thesis using accept_pending_fire assms by simp
next
  case (Wait d)
  then show ?thesis
    using assms by (fastforce simp: accept_pending_def list_all_iff)
next
  case (Frame now)
  then show ?thesis
    using assms(1) by (simp add: accept_pending_def)
next
  case ClickBegin
  then show ?thesis
    using accept_pending_click [OF assms(1) begin_click_facts(1-4)] by simp
next
  case ClickAccept
  then show ?thesis
    using accept_pending_click [OF assms(1) handleAccept_facts(1-4)] by simp
next
  case ClickRetry
  then show ?thesis
    using accept_pending_click [OF assms(1) handleRetry_facts(1-4)] by simp
qed

lemma accept_pending_run:
  "run es x = Some y \<Longrightarrow> accept_pending t x \<Longrightarrow> accept_pending t y"
proof (induction es arbitrary: x)
  case Nil
  then show ?case by simp
next
  case (Cons ev es)
  from Cons.prems(1) have en: "enabled ev x" and r: "run es (apply_event ev x) = Some y"
    by (simp_all split: if_splits)
  show ?case
    using Cons.IH [OF r accept_pending_step [OF Cons.prems(2) en]] .
qed

lemma handleAccept_pending: "accept_pending (clock s) (handleAccept s)"
  by (simp add: accept_pending_def handleAccept_def handler_defs Let_def)

lemma accept_eventually:
  assumes "accept_pending t x"
  shows "\<exists>n x'. run (replicate n Fire) x = Some x' \<and> \<not> askDisplayed x' \<and> acceptedVisible x'"
  using assms
proof (induction "potential (t + 800) x" arbitrary: x rule: less_induct)
  case less
  show ?case
  proof (cases "\<not> askDisplayed x \<and> acceptedVisible x")
    case True
    have "run (replicate 0 Fire) x = Some x" by simp
    then show ?thesis
      using True by blast
  next
    case False
    with less.prems have m: "(t + 800, AskHide) \<in> set (timers x)"
      by (simp add: accept_pending_def)
    then have en: "enabled Fire x" by auto
    then obtain due a where e: "earliest (timers x) = Some (due, a)"
      by (rule fire_unfold)
    have d: "due \<le> t + 800"
      using earliest_least [OF e m] by simp
    have r1: "run (replicate 1 Fire) x = Some (fire x)"
      using en by simp
    from less.hyps [OF potential_fire [OF e d] accept_pending_fire [OF less.prems en]]
    obtain n x' where "run (replicate n Fire) (fire x) = Some x'"
      "\<not> askDisplayed x'" "acceptedVisible x'"
      by blast
    then show ?thesis
      using run_fires_add [OF r1] by blast
  qed
qed

text \<open>
  Claim C7. From any page, with or without the \<open>confetti\<close> function, \<open>handleAccept\<close> throws
  nothing, starts the fade of the ask section and queues its removal for 800 ms later (the
  burst is called exactly when the function is present). However the run goes on, once
  more than 800 ms have passed the ask section is not displayed, so neither the accept nor
  the retry button takes a click, and the accepted message is visible; and from wherever
  the run stands, finitely many firings of the loop bring that about.
\<close>

theorem accept_hides_ask:
  assumes "run es (handleAccept s) = Some s'"
  shows "askOpacity0 (handleAccept s) \<and> uncaught (handleAccept s) = uncaught s
    \<and> (clock s + 800, AskHide) \<in> set (timers (handleAccept s))
    \<and> confettiBursts (handleAccept s)
        = (if confettiPresent (env s) then confettiBursts s + 1 else confettiBursts s)
    \<and> (clock s + 800 < clock s' \<longrightarrow>
          \<not> askDisplayed s' \<and> acceptedVisible s'
          \<and> \<not> enabled ClickAccept s' \<and> \<not> enabled ClickRetry s')
    \<and> (\<exists>n s''. run (replicate n Fire) s' = Some s''
          \<and> \<not> askDisplayed s'' \<and> acceptedVisible s'')"
proof -
  have p: "accept_pending (clock s) s'"
    using accept_pending_run [OF assms handleAccept_pending] .
  then have "clock s + 800 < clock s' \<longrightarrow> \<not> askDisplayed s' \<and> acceptedVisible s'"
    by (auto simp: accept_pending_def)
  then show ?thesis
    using accept_eventually [OF p]
    by (simp add: handleAccept_def handler_defs Let_def)
qed

lemma accept_run_with_confetti:
  "\<exists>s'. run [Fire, Fire, Fire, Fire, Wait 1] (handleAccept (init env_dodge None)) = Some s'
     \<and> clock s' = 801 \<and> confettiBursts s' = 4"
  by (simp add: run_defs Let_def env_dodge_def)

lemma accept_run_without_confetti:
  "\<exists>s'. run [Fire, Wait 1] (handleAccept (init env_never None)) = Some s'
     \<and> clock s' = 801 \<and> confettiBursts s' = 0"
  by (simp add: run_defs Let_def env_never_def)

theorem accept_hides_ask_witness:
  "(\<exists>s'. run [Fire, Fire, Fire, Fire, Wait 1] (handleAccept (init env_dodge None)) = Some s'
      \<and> clock (init env_dodge None) + 800 < clock s'
      \<and> \<not> askDisplayed s' \<and> acceptedVisible s')
   \<and> (\<exists>s'. run [Fire, Wait 1] (handleAccept (init env_never None)) = Some s'
      \<and> clock (init env_never None) + 800 < clock s'
      \<and> \<not> askDisplayed s' \<and> acceptedVisible s')"
proof -
  obtain a where a: "run [Fire, Fire, Fire, Fire, Wait 1] (handleAccept (init env_dodge None)) = Some a"
    and ca: "clock a = 801"
    using accept_run_with_confetti by blast
  obtain b where b: "run [Fire, Wait 1] (handleAccept (init env_never None)) = Some b"
    and cb: "clock b = 801"
    using accept_run_without_confetti by blast
  have i: "clock (init env_dodge None) = 0" "clock (init env_never None) = 0"
    by (simp_all add: init_def)
  show ?thesis
    using accept_hides_ask [OF a] accept_hides_ask [OF b] a b ca cb i
    by simp
qed

subsection \<open>The forward timers: one stage at a time\<close>

lemma stage_same_core:
  assumes "same_core s s'"
  shows "stage_flow t0 st s' = stage_flow t0 st s"
    and "stage_ok t0 ps0 ag st s' = stage_ok t0 ps0 ag st s"
    and "todo ag st s' = todo ag st s"
  using assms by (cases st; simp add: same_core_def typing_ok_def paras_def todo_def)+

lemma origin_mono:
  assumes "origin t0 st s" and "env s' = env s" and "waitAttempts s' = waitAttempts s"
    and "clock s \<le> clock s'"
  shows "origin t0 st s'"
proof -
  have "seen s \<Longrightarrow> seen s'"
    using assms(2,4) by (auto simp: seen_def intro: le_trans)
  then show ?thesis
    using assms by (cases st) auto
qed

lemma at_stage_same_core:
  assumes "at_stage t0 ps0 ag st s" and "same_core s s'" and "clock s \<le> clock s'"
    and "list_all (\<lambda>t. clock s' \<le> fst t) (flow s)"
  shows "at_stage t0 ps0 ag st s'"
proof -
  from assms(1) have
    f: "flow s = (if ag then [] else [(t0 + 400, ActivateGlobe)]) @ stage_flow t0 st s"
    and l: "phaseLog s = Deactivated Landing # (if ag then [Activated Globe] else []) @ stage_log st"
    and b: "\<not> btnBeginPointerEvents s" "uncaught s = 0"
    and ok: "stage_ok t0 ps0 ag st s" and t: "t0 \<le> clock s" and og: "origin t0 st s"
    by (auto simp: at_stage_def)
  have c: "flow s' = flow s" "phaseLog s' = phaseLog s"
    "btnBeginPointerEvents s' = btnBeginPointerEvents s" "uncaught s' = uncaught s"
    "env s' = env s" "waitAttempts s' = waitAttempts s"
    using assms(2) by (simp_all add: same_core_def)
  have og': "origin t0 st s'"
    using origin_mono [OF og c(5,6) assms(3)] .
  show ?thesis
    unfolding at_stage_def
    using f l b ok t og' assms(3,4)
    by (simp add: c stage_same_core [OF assms(2)])
qed

lemma not_begun_same_core:
  "not_begun ps0 s \<Longrightarrow> same_core s s' \<Longrightarrow> not_begun ps0 s'"
  by (simp add: not_begun_def same_core_def)

lemma exec_same_core: "\<not> is_flow a \<Longrightarrow> same_core s (exec a s)"
  by (cases a) (simp_all add: same_core_def flow_def handler_defs Let_def)

lemma handleAccept_same_core: "same_core s (handleAccept s)"
  by (simp add: same_core_def flow_def handleAccept_def handler_defs Let_def)

lemma handleRetry_same_core: "same_core s (handleRetry s)"
  by (simp add: same_core_def flow_def handleRetry_def handler_defs Let_def)

lemma filter_remove1_if:
  "filter P (remove1 t ts) = (if P t then remove1 t (filter P ts) else filter P ts)"
  by (induction ts) auto

lemma at_stageI:
  assumes "flow s = (if ag then [] else [(t0 + 400, ActivateGlobe)]) @ stage_flow t0 st s"
    and "phaseLog s = Deactivated Landing # (if ag then [Activated Globe] else []) @ stage_log st"
    and "\<not> btnBeginPointerEvents s" and "uncaught s = 0"
    and "stage_ok t0 ps0 ag st s" and "origin t0 st s" and "t0 \<le> clock s"
    and "list_all (\<lambda>t. clock s \<le> fst t) (flow s)"
  shows "at_stage t0 ps0 ag st s"
  unfolding at_stage_def using assms by blast

lemma same_core_trans: "same_core a b \<Longrightarrow> same_core b c \<Longrightarrow> same_core a c"
  by (simp add: same_core_def)

lemma flow_subset: "set (flow s) \<subseteq> set (timers s)"
  by (auto simp: flow_def)

lemma fire_nonflow_same_core:
  assumes "\<not> is_flow a"
  shows "same_core s (exec a (s\<lparr>clock := c, timers := remove1 (due, a) (timers s)\<rparr>))"
proof -
  have "same_core s (s\<lparr>clock := c, timers := remove1 (due, a) (timers s)\<rparr>)"
    using assms by (simp add: same_core_def flow_def filter_remove1_if)
  then show ?thesis
    using exec_same_core [OF assms] same_core_trans by blast
qed

lemma at_stage_fire_nonflow:
  assumes "at_stage t0 ps0 ag st s" and "earliest (timers s) = Some (due, a)"
    and "\<not> is_flow a"
  shows "at_stage t0 ps0 ag st (exec a (s\<lparr>clock := max (clock s) due,
            timers := remove1 (due, a) (timers s)\<rparr>))"
proof (rule at_stage_same_core [OF assms(1) fire_nonflow_same_core [OF assms(3)]])
  show "clock s \<le> clock (exec a (s\<lparr>clock := max (clock s) due,
            timers := remove1 (due, a) (timers s)\<rparr>))"
    by (simp add: exec_clock)
  have w: "list_all (\<lambda>t. clock s \<le> fst t) (flow s)"
    using assms(1) by (auto simp: at_stage_def)
  have "due \<le> fst t" if "t \<in> set (flow s)" for t
    using earliest_least [OF assms(2)] that flow_subset by fastforce
  with w show "list_all (\<lambda>t. clock (exec a (s\<lparr>clock := max (clock s) due,
            timers := remove1 (due, a) (timers s)\<rparr>)) \<le> fst t) (flow s)"
    by (auto simp: exec_clock list_all_iff)
qed

lemma paras_set_para: "paras (set_para i f s) = (paras s)[i := f (paras s ! i)]"
  by (cases "paragraphs s") (simp_all add: paras_def set_para_def)

lemma reveal_append_char:
  assumes "reveal src k (take c (src ! k)) True ps" and "c < length (src ! k)"
    and "k < length src"
  shows "reveal src k (take (Suc c) (src ! k)) True
           (ps[k := (ps ! k)\<lparr>ptext := ptext (ps ! k) @ [src ! k ! c]\<rparr>])"
  using assms by (auto simp: reveal_def nth_list_update take_Suc_conv_app_nth)

lemma reveal_next:
  assumes "reveal src k (src ! k) True ps"
  shows "reveal src (Suc k) [] False ps"
  using assms by (auto simp: reveal_def less_Suc_eq)

lemma reveal_show:
  assumes "reveal src k [] False ps" and "k < length src"
  shows "reveal src k [] True (ps[k := (ps ! k)\<lparr>pshown := True\<rparr>])"
  using assms by (auto simp: reveal_def nth_list_update)

lemma typeChar_step:
  assumes ok: "stage_ok t0 ps0 True (Typing d) y" and z: "z = typeChar (pIndex y) y"
  shows "\<exists>st'. flow z = flow y @ stage_flow t0 st' z \<and> stage_ok t0 ps0 True st' z
           \<and> stage_log st' = [Deactivated Globe, Activated Letter]
           \<and> list_all (\<lambda>t. clock y \<le> fst t) (stage_flow t0 st' z)
           \<and> todo_stage st' z < todo_stage (Typing d) y"
    and "phaseLog z = phaseLog y \<and> btnBeginPointerEvents z = btnBeginPointerEvents y
           \<and> uncaught z = uncaught y \<and> clock z = clock y
           \<and> env z = env y \<and> waitAttempts z = waitAttempts y"
proof -
  let ?k = "pIndex y"
  from ok have re: "globeResolved y" and ty: "typing_ok ps0 y"
    and k: "?k < length (texts y)" and c: "charIndex y \<le> length (texts y ! ?k)"
    and cu: "cursorAt y = Some ?k"
    and rv: "reveal (texts y) ?k (take (charIndex y) (texts y ! ?k)) True (paras y)"
    by simp_all
  have n: "length (paras y) = length (texts y)"
    using rv by (simp add: reveal_def)
  consider (typed) "charIndex y < length (texts y ! ?k)"
    | (advance) "charIndex y = length (texts y ! ?k)" "?k + 1 < length (texts y)"
    | (finish) "charIndex y = length (texts y ! ?k)" "?k + 1 = length (texts y)"
    using c k by linarith
  then have "(\<exists>st'. flow z = flow y @ stage_flow t0 st' z \<and> stage_ok t0 ps0 True st' z
           \<and> stage_log st' = [Deactivated Globe, Activated Letter]
           \<and> list_all (\<lambda>t. clock y \<le> fst t) (stage_flow t0 st' z)
           \<and> todo_stage st' z < todo_stage (Typing d) y)
       \<and> (phaseLog z = phaseLog y \<and> btnBeginPointerEvents z = btnBeginPointerEvents y
           \<and> uncaught z = uncaught y \<and> clock z = clock y
           \<and> env z = env y \<and> waitAttempts z = waitAttempts y)"
  proof cases
    case typed
    have zz: "z = schedule TYPEWRITER_SPEED (TypeChar ?k)
             ((set_para ?k (\<lambda>p. p\<lparr>ptext := ptext p @ [texts y ! ?k ! charIndex y]\<rparr>) y)
                \<lparr>charIndex := charIndex y + 1\<rparr>)"
      using typed cu by (simp add: z typeChar_unfold)
    have zf: "phaseLog z = phaseLog y" "btnBeginPointerEvents z = btnBeginPointerEvents y"
      "uncaught z = uncaught y" "clock z = clock y" "env z = env y"
      "waitAttempts z = waitAttempts y" "globeResolved z = globeResolved y"
      "texts z = texts y" "pIndex z = pIndex y" "charIndex z = charIndex y + 1"
      "cursorAt z = cursorAt y"
      by (simp_all add: zz schedule_def set_para_def)
    have pz: "paras z = (paras y)[?k := (paras y ! ?k)\<lparr>ptext := ptext (paras y ! ?k)
                 @ [texts y ! ?k ! charIndex y]\<rparr>]"
      by (simp add: zz schedule_def paras_set_para paras_def [of "_\<lparr>charIndex := _\<rparr>"]
          paras_def [of "_\<lparr>timers := _\<rparr>"])
         (simp add: paras_def set_para_def split: option.splits)
    have fz: "flow z = flow y @ [(clock y + 25, TypeChar ?k)]"
      by (simp add: zz flow_def schedule_def set_para_def TYPEWRITER_SPEED_def)
    have tz: "typing_ok ps0 z"
      using ty by (auto simp: typing_ok_def zf zz schedule_def set_para_def)
    have rz: "reveal (texts z) (pIndex z) (take (charIndex z) (texts z ! pIndex z)) True (paras z)"
      using reveal_append_char [OF rv typed k] by (simp add: zf pz)
    have so: "stage_ok t0 ps0 True (Typing (clock y + 25)) z"
      using re tz k typed cu rz by (simp add: zf)
    have td: "todo_stage (Typing (clock y + 25)) z < todo_stage (Typing d) y"
      using typed by (simp add: zf)
    show ?thesis
      using so td
      by (intro conjI exI [of _ "Typing (clock y + 25)"]; (assumption | simp add: fz zf))
  next
    case advance
    have zz: "z = schedule 400 TypeNextParagraph (y\<lparr>pIndex := ?k + 1\<rparr>)"
      using advance n by (simp add: z typeChar_unfold)
    have zf: "phaseLog z = phaseLog y" "btnBeginPointerEvents z = btnBeginPointerEvents y"
      "uncaught z = uncaught y" "clock z = clock y" "env z = env y"
      "waitAttempts z = waitAttempts y" "globeResolved z = globeResolved y"
      "texts z = texts y" "pIndex z = pIndex y + 1" "paras z = paras y"
      by (simp_all add: zz schedule_def paras_def)
    have fz: "flow z = flow y @ [(clock y + 400, TypeNextParagraph)]"
      by (simp add: zz flow_def schedule_def)
    have tz: "typing_ok ps0 z"
      using ty advance by (auto simp: typing_ok_def zf zz schedule_def)
    have rz: "reveal (texts z) (pIndex z) [] False (paras z)"
      using reveal_next [of "texts y" ?k "paras y"] rv advance by (simp add: zf)
    have so: "stage_ok t0 ps0 True (Between (clock y + 400)) z"
      using re tz advance rz by (simp add: zf)
    have td: "todo_stage (Between (clock y + 400)) z < todo_stage (Typing d) y"
      by (simp add: zf)
    show ?thesis
      using so td
      by (intro conjI exI [of _ "Between (clock y + 400)"]; (assumption | simp add: fz zf))
  next
    case finish
    have zz: "z = schedule 1500 CursorFade (y\<lparr>pIndex := ?k + 1\<rparr>)"
      using finish n by (simp add: z typeChar_unfold)
    have zf: "phaseLog z = phaseLog y" "btnBeginPointerEvents z = btnBeginPointerEvents y"
      "uncaught z = uncaught y" "clock z = clock y" "env z = env y"
      "waitAttempts z = waitAttempts y" "globeResolved z = globeResolved y"
      "texts z = texts y" "pIndex z = pIndex y + 1" "paras z = paras y"
      by (simp_all add: zz schedule_def paras_def)
    have fz: "flow z = flow y"
      by (simp add: zz flow_def schedule_def)
    have tz: "typing_ok ps0 z"
      using ty finish by (auto simp: typing_ok_def zf zz schedule_def)
    have rz: "reveal (texts z) (pIndex z) [] False (paras z)"
      using reveal_next [of "texts y" ?k "paras y"] rv finish by (simp add: zf)
    have pe: "pIndex z = length (texts z)"
      using finish by (simp add: zf)
    have so: "stage_ok t0 ps0 True Done z"
      using re tz pe rz by (simp add: zf(7))
    have td: "todo_stage Done z < todo_stage (Typing d) y"
      by simp
    show ?thesis
      using so td
      by (intro conjI exI [of _ Done]; (assumption | simp add: fz zf))
  qed
  then show "\<exists>st'. flow z = flow y @ stage_flow t0 st' z \<and> stage_ok t0 ps0 True st' z
           \<and> stage_log st' = [Deactivated Globe, Activated Letter]
           \<and> list_all (\<lambda>t. clock y \<le> fst t) (stage_flow t0 st' z)
           \<and> todo_stage st' z < todo_stage (Typing d) y"
    and "phaseLog z = phaseLog y \<and> btnBeginPointerEvents z = btnBeginPointerEvents y
           \<and> uncaught z = uncaught y \<and> clock z = clock y
           \<and> env z = env y \<and> waitAttempts z = waitAttempts y"
    by blast+
qed

lemma typeNextParagraph_step:
  assumes ok: "stage_ok t0 ps0 True (Between d) y" and z: "z = typeNextParagraph y"
  shows "\<exists>st'. flow z = flow y @ stage_flow t0 st' z \<and> stage_ok t0 ps0 True st' z
           \<and> stage_log st' = [Deactivated Globe, Activated Letter]
           \<and> list_all (\<lambda>t. clock y \<le> fst t) (stage_flow t0 st' z)
           \<and> todo_stage st' z < todo_stage (Between d) y"
    and "phaseLog z = phaseLog y \<and> btnBeginPointerEvents z = btnBeginPointerEvents y
           \<and> uncaught z = uncaught y \<and> clock z = clock y
           \<and> env z = env y \<and> waitAttempts z = waitAttempts y"
proof -
  let ?k = "pIndex y"
  define y' where "y' = (set_para ?k (\<lambda>p. p\<lparr>pshown := True\<rparr>) (y\<lparr>charIndex := 0\<rparr>))
                \<lparr>cursorAt := Some ?k\<rparr>"
  from ok have re: "globeResolved y" and ty: "typing_ok ps0 y"
    and k: "?k < length (texts y)"
    and rv: "reveal (texts y) ?k [] False (paras y)"
    by simp_all
  have n: "length (paras y) = length (texts y)"
    using rv by (simp add: reveal_def)
  have yf: "phaseLog y' = phaseLog y" "btnBeginPointerEvents y' = btnBeginPointerEvents y"
    "uncaught y' = uncaught y" "clock y' = clock y" "env y' = env y"
    "waitAttempts y' = waitAttempts y" "globeResolved y' = globeResolved y"
    "texts y' = texts y" "pIndex y' = pIndex y" "charIndex y' = 0" "cursorAt y' = Some ?k"
    "flow y' = flow y"
    by (simp_all add: y'_def set_para_def flow_def)
  have py: "paras y' = (paras y)[?k := (paras y ! ?k)\<lparr>pshown := True\<rparr>]"
    by (simp add: y'_def paras_def set_para_def split: option.splits)
  have ty': "typing_ok ps0 y'"
    using ty by (auto simp: typing_ok_def y'_def set_para_def)
  have rv': "reveal (texts y') (pIndex y') (take (charIndex y') (texts y' ! pIndex y')) True
               (paras y')"
    using reveal_show [OF rv k] by (simp add: yf py)
  have ok': "stage_ok t0 ps0 True (Typing d) y'"
    using re ty' k rv' by (simp add: yf)
  have zz: "z = typeChar (pIndex y') y'"
    using k n by (simp add: z typeNextParagraph_unfold y'_def set_para_def)
  have tq: "todo_stage (Typing d) y' < todo_stage (Between d) y"
    using k by (simp add: yf letter_work_def Cons_nth_drop_Suc [symmetric])
  from typeChar_step(1) [OF ok' zz] obtain st' where
    "flow z = flow y' @ stage_flow t0 st' z" "stage_ok t0 ps0 True st' z"
    "stage_log st' = [Deactivated Globe, Activated Letter]"
    "list_all (\<lambda>t. clock y' \<le> fst t) (stage_flow t0 st' z)"
    "todo_stage st' z < todo_stage (Typing d) y'"
    by blast
  then show "\<exists>st'. flow z = flow y @ stage_flow t0 st' z \<and> stage_ok t0 ps0 True st' z
           \<and> stage_log st' = [Deactivated Globe, Activated Letter]
           \<and> list_all (\<lambda>t. clock y \<le> fst t) (stage_flow t0 st' z)
           \<and> todo_stage st' z < todo_stage (Between d) y"
    using tq by (intro exI [of _ st']) (simp add: yf)
  show "phaseLog z = phaseLog y \<and> btnBeginPointerEvents z = btnBeginPointerEvents y
           \<and> uncaught z = uncaught y \<and> clock z = clock y
           \<and> env z = env y \<and> waitAttempts z = waitAttempts y"
    using typeChar_step(2) [OF ok' zz] by (simp add: yf)
qed

lemma arriving_delay: "nat \<lfloor>real ARC_FLIGHT_TIME * ARRIVING_THRESHOLD\<rfloor> = 5250"
  by (simp add: ARC_FLIGHT_TIME_def ARRIVING_THRESHOLD_def)

lemma flow_ActivateGlobe: "flow (exec ActivateGlobe y) = flow y"
  by (simp add: flow_def)

lemma flow_waitForGlobe:
  "flow (waitForGlobe y) = flow y @
     (if globeDefined (env y) (clock y) then [(clock y + 1500, StartArc)]
      else if waitAttempts y < 50 then [(clock y + 200, WaitForGlobe)]
      else if globeResolved y then [] else [(clock y + 1200, ShowLetter)])"
  by (simp add: flow_def handler_defs Let_def)

lemma flow_start_arc: "flow (start_arc y) = flow y @ [(clock y + 10300, ResolveGlobe)]"
  by (simp add: flow_def handler_defs Let_def ARC_FLIGHT_TIME_def CE_DISPLAY_TIME_def)

lemma flow_resolve:
  "flow (resolve y) = flow y @ (if globeResolved y then [] else [(clock y + 1200, ShowLetter)])"
  by (simp add: flow_def handler_defs Let_def)

lemma flow_show_letter:
  "flow (show_letter y) = flow y @
     (case paragraphs y of None \<Rightarrow> []
      | Some ps \<Rightarrow> if ps = [] then [] else [(clock y + 1800, TypeNextParagraph)])"
  by (simp add: flow_def handler_defs Let_def split: option.splits)

lemma at_stage_fire_flow:
  assumes bg: "at_stage t0 ps0 ag st s" and e: "earliest (timers s) = Some (due, a)"
    and fl: "is_flow a"
  shows "\<exists>ag' st'.
           at_stage t0 ps0 ag' st' (exec a (s\<lparr>clock := max (clock s) due,
              timers := remove1 (due, a) (timers s)\<rparr>))
           \<and> todo ag' st' (exec a (s\<lparr>clock := max (clock s) due,
              timers := remove1 (due, a) (timers s)\<rparr>)) < todo ag st s"
proof -
  from bg have
    f: "flow s = (if ag then [] else [(t0 + 400, ActivateGlobe)]) @ stage_flow t0 st s"
    and l: "phaseLog s = Deactivated Landing # (if ag then [Activated Globe] else []) @ stage_log st"
    and b: "\<not> btnBeginPointerEvents s" and u: "uncaught s = 0"
    and ok: "stage_ok t0 ps0 ag st s" and og: "origin t0 st s" and t: "t0 \<le> clock s"
    and w: "list_all (\<lambda>t. clock s \<le> fst t) (flow s)"
    by (auto simp: at_stage_def)
  have mem: "(due, a) \<in> set (flow s)"
    using earliest_mem [OF e] fl by (simp add: flow_def)
  have least: "due \<le> fst x" if "x \<in> set (flow s)" for x
    using earliest_least [OF e] that flow_subset by fastforce
  have cd: "clock s \<le> due"
    using w mem by (auto simp: list_all_iff)
  then have mx: "max (clock s) due = due" by simp
  define y where "y = s\<lparr>clock := due, timers := remove1 (due, a) (timers s)\<rparr>"
  have fy: "flow y = remove1 (due, a) (flow s)"
    using fl by (simp add: y_def filter_remove1_if flow_def)
  have ls: "due \<le> fst x" if "x \<in> set (stage_flow t0 st s)" for x
    using least f that by auto
  have yf: "clock y = due" "phaseLog y = phaseLog s" "btnBeginPointerEvents y = btnBeginPointerEvents s"
    "uncaught y = uncaught s" "waitAttempts y = waitAttempts s" "globeResolved y = globeResolved s"
    "paragraphs y = paragraphs s" "texts y = texts s" "pIndex y = pIndex s"
    "charIndex y = charIndex s" "cursorAt y = cursorAt s" "env y = env s"
    "cursorCreated y = cursorCreated s"
    by (simp_all add: y_def)
  have fy0: "flow y = (if ag then [] else [(t0 + 400, ActivateGlobe)])"
    if "(due, a) \<in> set (stage_flow t0 st s)" "length (stage_flow t0 st s) = 1"
       "a \<noteq> ActivateGlobe"
  proof -
    from that(1,2) have "stage_flow t0 st s = [(due, a)]"
      by (cases "stage_flow t0 st s") auto
    then show ?thesis
      using that(3) by (simp add: fy f)
  qed
  have agd: "due \<le> t0 + 400" if "\<not> ag"
    using least [of "(t0 + 400, ActivateGlobe)"] f that by simp
  define z where "z = exec a y"
  have cz: "clock z = due"
    by (simp add: z_def exec_clock yf)
  have ogm: "origin t0 st' z"
    if "origin t0 st' s" "env z = env s" "waitAttempts z = waitAttempts s" for st'
    using origin_mono [OF that] cd cz by simp
  have stepI: "\<exists>ag' st'. at_stage t0 ps0 ag' st' z \<and> todo ag' st' z < todo ag st s"
    if "flow z = (if ag' then [] else [(t0 + 400, ActivateGlobe)]) @ stage_flow t0 st' z"
      and "phaseLog z
        = Deactivated Landing # (if ag' then [Activated Globe] else []) @ stage_log st'"
      and "\<not> btnBeginPointerEvents z" and "uncaught z = 0"
      and "stage_ok t0 ps0 ag' st' z" and "origin t0 st' z" and "t0 \<le> clock z"
      and "list_all (\<lambda>t. clock z \<le> fst t) (flow z)"
      and "todo ag' st' z < todo ag st s"
    for ag' st'
    using at_stageI [OF that(1-8)] that(9) by blast
  have goal: "\<exists>ag' st'. at_stage t0 ps0 ag' st' z \<and> todo ag' st' z < todo ag st s"
  proof (cases "\<not> ag \<and> (due, a) = (t0 + 400, ActivateGlobe)")
    case True
    then have a: "a = ActivateGlobe" and d: "due = t0 + 400" and nag: "\<not> ag" by simp_all
    have sl: "stage_log st = []"
      using ok nag by (cases st) simp_all
    have "flow z = flow y"
      unfolding z_def a by (rule flow_ActivateGlobe)
    then have fz: "flow z = stage_flow t0 st s"
      using f nag by (simp add: fy d a)
    have zf: "phaseLog z = phaseLog s @ [Activated Globe]"
      "btnBeginPointerEvents z = btnBeginPointerEvents s" "uncaught z = uncaught s"
      by (simp_all add: z_def a yf)
    have ok': "stage_ok t0 ps0 True st z"
      using ok nag by (cases st) (simp_all add: z_def a yf)
    have oz: "origin t0 st z"
      by (rule ogm [OF og]) (simp_all add: z_def a yf)
    have sf: "stage_flow t0 st z = stage_flow t0 st s"
      by (cases st) (simp_all add: z_def a yf)
    have ts: "todo_stage st z = todo_stage st s"
      by (cases st) (simp_all add: z_def a yf paras_def)
    show ?thesis
      by (rule stepI [where ag' = True and st' = st])
         (use l nag sl b u ok' oz ls d in
           \<open>simp_all add: fz sf zf cz list_all_iff todo_def ts\<close>)
  next
    case False
    with mem f have ms: "(due, a) \<in> set (stage_flow t0 st s)"
      by (auto split: if_splits)
    show ?thesis
    proof (cases st)
      case Polling
      with ms have a: "a = WaitForGlobe" and d: "due = t0 + 200 * waitAttempts s" by simp_all
      from ok Polling have w1: "1 \<le> waitAttempts s" and w50: "waitAttempts s \<le> 50"
        and nr: "\<not> globeResolved s" and pp: "paragraphs s = ps0"
        and nc: "\<not> cursorCreated s" by simp_all
      have fy1: "flow y = (if ag then [] else [(t0 + 400, ActivateGlobe)])"
        using fy0 ms Polling a by simp
      have z: "z = waitForGlobe y" by (simp add: z_def a)
      have fz: "flow z = flow y @
         (if globeDefined (env s) due then [(due + 1500, StartArc)]
          else if waitAttempts s < 50 then [(due + 200, WaitForGlobe)]
          else [(due + 1200, ShowLetter)])"
        using nr by (simp add: z flow_waitForGlobe yf)
      consider (built) "globeDefined (env s) due"
        | (again) "\<not> globeDefined (env s) due" "waitAttempts s < 50"
        | (giveup) "\<not> globeDefined (env s) due" "waitAttempts s = 50"
        using w50 by linarith
      then show ?thesis
      proof cases
        case built
        have zf: "phaseLog z = phaseLog s" "btnBeginPointerEvents z = btnBeginPointerEvents s"
          "uncaught z = uncaught s" "globeResolved z = globeResolved s"
          "paragraphs z = paragraphs s" "cursorCreated z = cursorCreated s" "env z = env s"
          using built by (simp_all add: z handler_defs yf)
        have oz: "seen z"
          using built by (auto simp: seen_def zf cz)
        show ?thesis
          by (rule stepI [where ag' = ag and st' = "Built (due + 1500)"])
             (use l b u nr pp nc oz built agd Polling d w50 in
               \<open>simp_all add: fz fy1 zf cz list_all_iff todo_def paras_def\<close>)
      next
        case again
        have zf: "phaseLog z = phaseLog s" "btnBeginPointerEvents z = btnBeginPointerEvents s"
          "uncaught z = uncaught s" "globeResolved z = globeResolved s"
          "paragraphs z = paragraphs s" "waitAttempts z = waitAttempts s + 1"
          "cursorCreated z = cursorCreated s"
          using again by (simp_all add: z handler_defs yf)
        show ?thesis
          by (rule stepI [where ag' = ag and st' = Polling])
             (use l b u nr pp nc again agd Polling d in
               \<open>simp_all add: fz fy1 zf cz list_all_iff todo_def paras_def\<close>)
      next
        case giveup
        have ag: ag
          using agd giveup d by auto
        have zf: "phaseLog z = phaseLog s @ [Deactivated Globe]"
          "btnBeginPointerEvents z = btnBeginPointerEvents s"
          "uncaught z = uncaught s" "globeResolved z"
          "paragraphs z = paragraphs s" "cursorCreated z = cursorCreated s"
          "waitAttempts z = waitAttempts s"
          using giveup nr by (simp_all add: z handler_defs yf Let_def)
        show ?thesis
          by (rule stepI [where ag' = ag and st' = "Resolved (due + 1200)"])
             (use l b u nr pp nc giveup ag Polling d in
               \<open>simp_all add: fz fy1 zf cz list_all_iff todo_def paras_def\<close>)
      qed
    next
      case (Built d')
      with ms have a: "a = StartArc" and d: "due = d'" by simp_all
      from ok Built have lt: "t0 + 400 < d'"
        and nr: "\<not> globeResolved s" and pp: "paragraphs s = ps0"
        and nc: "\<not> cursorCreated s" by simp_all
      have ag: ag
        using agd lt d by auto
      have fy1: "flow y = []"
        using fy0 ms Built a ag by simp
      have z: "z = start_arc y" by (simp add: z_def a)
      have fz: "flow z = [(due + 10300, ResolveGlobe)]"
        by (simp add: z flow_start_arc fy1 yf)
      have zf: "phaseLog z = phaseLog s" "btnBeginPointerEvents z = btnBeginPointerEvents s"
        "uncaught z = uncaught s" "globeResolved z = globeResolved s"
        "paragraphs z = paragraphs s" "cursorCreated z = cursorCreated s"
        "env z = env s" "waitAttempts z = waitAttempts s"
        by (simp_all add: z handler_defs yf)
      have oz: "origin t0 (Arc (due + 10300)) z"
        using ogm [of "Built d'"] og Built zf by simp
      show ?thesis
        by (rule stepI [where ag' = True and st' = "Arc (due + 10300)"])
           (use l b u nr pp nc oz ag Built d lt in
             \<open>simp_all add: fz zf cz todo_def paras_def\<close>)
    next
      case (Arc d')
      with ms have a: "a = ResolveGlobe" and d: "due = d'" by simp_all
      from ok Arc have ag: ag
        and nr: "\<not> globeResolved s" and pp: "paragraphs s = ps0"
        and nc: "\<not> cursorCreated s" by simp_all
      have fy1: "flow y = []"
        using fy0 ms Arc a ag by simp
      have z: "z = resolve y" by (simp add: z_def a)
      have fz: "flow z = [(due + 1200, ShowLetter)]"
        using nr by (simp add: z flow_resolve fy1 yf)
      have zf: "phaseLog z = phaseLog s @ [Deactivated Globe]"
        "btnBeginPointerEvents z = btnBeginPointerEvents s"
        "uncaught z = uncaught s" "globeResolved z" "paragraphs z = paragraphs s"
        "cursorCreated z = cursorCreated s" "env z = env s" "waitAttempts z = waitAttempts s"
        using nr by (simp_all add: z handler_defs yf)
      have oz: "origin t0 (Resolved (due + 1200)) z"
        using ogm [of "Arc d'"] og Arc zf by simp
      show ?thesis
        by (rule stepI [where ag' = True and st' = "Resolved (due + 1200)"])
           (use l b u pp nc oz ag Arc d t cd in
             \<open>simp_all add: fz zf cz todo_def paras_def\<close>)
    next
      case (Resolved d')
      with ms have a: "a = ShowLetter" and d: "due = d'" by simp_all
      from ok Resolved have ag: ag
        and re: "globeResolved s" and pp: "paragraphs s = ps0"
        and nc: "\<not> cursorCreated s" by simp_all
      have fy1: "flow y = []"
        using fy0 ms Resolved a ag by simp
      have z: "z = show_letter y" by (simp add: z_def a)
      have zf: "phaseLog z = phaseLog s @ [Activated Letter]"
        "btnBeginPointerEvents z = btnBeginPointerEvents s"
        "uncaught z = uncaught s" "globeResolved z = globeResolved s"
        "env z = env s" "waitAttempts z = waitAttempts s"
        by (simp_all add: z handler_defs yf split: option.splits)
      have oz: "seen z \<or> (waitAttempts z = 50 \<and> t0 + 10000 \<le> clock z)"
        using ogm [of "Resolved d'"] og Resolved zf by simp
      show ?thesis
      proof (cases "ps0 = None \<or> ps0 = Some []")
        case True
        have fz: "flow z = []"
          using True pp by (auto simp add: z flow_show_letter fy1 yf)
        have pz: "paragraphs z = ps0" "cursorCreated z = cursorCreated s"
          using True pp by (auto simp add: z handler_defs yf)
        show ?thesis
          by (rule stepI [where ag' = True and st' = NoType])
             (use l b u pp nc ag Resolved d t cd re True oz in
               \<open>simp_all add: fz zf cz pz todo_def\<close>)
      next
        case False
        then obtain ps where ps: "ps0 = Some ps" "ps \<noteq> []"
          by (cases ps0) auto
        have fz: "flow z = [(due + 1800, TypeNextParagraph)]"
          using ps pp by (simp add: z flow_show_letter fy1 yf)
        have tz: "paragraphs z = Some (map (\<lambda>p. p\<lparr>ptext := [], pshown := False\<rparr>) ps)"
          "texts z = map ptext ps" "pIndex z = 0" "cursorCreated z"
          using ps pp by (simp_all add: z handler_defs yf)
        have rv: "reveal (texts z) 0 [] False (paras z)"
          by (simp add: reveal_def paras_def tz)
        show ?thesis
          by (rule stepI [where ag' = True and st' = "Between (due + 1800)"])
             (use l b u ag Resolved d t cd re ps rv oz pp in
               \<open>simp_all add: fz zf cz typing_ok_def tz todo_def paras_def\<close>)
      qed
    next
      case NoType
      with ms show ?thesis by simp
    next
      case (Between d')
      with ms have a: "a = TypeNextParagraph" and d: "due = d'" by simp_all
      from ok Between have ag: ag by simp
      have fy1: "flow y = []"
        using fy0 ms Between a ag by simp
      have oky: "stage_ok t0 ps0 True (Between d') y"
        using ok Between ag by (simp add: yf typing_ok_def paras_def)
      have z: "z = typeNextParagraph y" by (simp add: z_def a)
      from typeNextParagraph_step [OF oky z] obtain st' where
        fz: "flow z = flow y @ stage_flow t0 st' z" and okz: "stage_ok t0 ps0 True st' z"
        and lz: "stage_log st' = [Deactivated Globe, Activated Letter]"
        and wz: "list_all (\<lambda>t. clock y \<le> fst t) (stage_flow t0 st' z)"
        and tdz: "todo_stage st' z < todo_stage (Between d') y"
        and zf: "phaseLog z = phaseLog y" "btnBeginPointerEvents z = btnBeginPointerEvents y"
          "uncaught z = uncaught y" "env z = env y" "waitAttempts z = waitAttempts y"
        by blast
      have td: "todo True st' z < todo ag st s"
        using tdz ag Between by (simp add: todo_def yf)
      have "origin t0 st' s"
        using og Between lz by (cases st') simp_all
      then have oz: "origin t0 st' z"
        by (rule ogm) (simp_all add: zf yf)
      show ?thesis
        by (rule stepI [where ag' = True and st' = st'])
           (use l b u ag Between okz oz lz wz t cd td in
             \<open>simp_all add: fz fy1 zf cz yf\<close>)
    next
      case (Typing d')
      with ms have a: "a = TypeChar (pIndex s)" and d: "due = d'" by simp_all
      from ok Typing have ag: ag by simp
      have fy1: "flow y = []"
        using fy0 ms Typing a ag by simp
      have oky: "stage_ok t0 ps0 True (Typing d') y"
        using ok Typing ag by (simp add: yf typing_ok_def paras_def)
      have z: "z = typeChar (pIndex y) y" by (simp add: z_def a yf)
      from typeChar_step [OF oky z] obtain st' where
        fz: "flow z = flow y @ stage_flow t0 st' z" and okz: "stage_ok t0 ps0 True st' z"
        and lz: "stage_log st' = [Deactivated Globe, Activated Letter]"
        and wz: "list_all (\<lambda>t. clock y \<le> fst t) (stage_flow t0 st' z)"
        and tdz: "todo_stage st' z < todo_stage (Typing d') y"
        and zf: "phaseLog z = phaseLog y" "btnBeginPointerEvents z = btnBeginPointerEvents y"
          "uncaught z = uncaught y" "env z = env y" "waitAttempts z = waitAttempts y"
        by blast
      have td: "todo True st' z < todo ag st s"
        using tdz ag Typing by (simp add: todo_def yf)
      have "origin t0 st' s"
        using og Typing lz by (cases st') simp_all
      then have oz: "origin t0 st' z"
        by (rule ogm) (simp_all add: zf yf)
      show ?thesis
        by (rule stepI [where ag' = True and st' = st'])
           (use l b u ag Typing okz oz lz wz t cd td in
             \<open>simp_all add: fz fy1 zf cz yf\<close>)
    next
      case Done
      with ms show ?thesis by simp
    qed
  qed
  then show ?thesis by (simp add: mx y_def z_def)
qed

lemma begunI:
  assumes "flow s = (if ag then [] else [(t0 + 400, ActivateGlobe)]) @ stage_flow t0 st s"
    and "phaseLog s = Deactivated Landing # (if ag then [Activated Globe] else []) @ stage_log st"
    and "\<not> btnBeginPointerEvents s" and "uncaught s = 0"
    and "stage_ok t0 ps0 ag st s" and "origin t0 st s" and "t0 \<le> clock s"
    and "list_all (\<lambda>t. clock s \<le> fst t) (flow s)"
  shows "begun t0 ps0 s"
  unfolding begun_def using at_stageI [OF assms] by blast

lemma begun_same_core:
  assumes "begun t0 ps0 s" and "same_core s s'" and "clock s \<le> clock s'"
    and "list_all (\<lambda>t. clock s' \<le> fst t) (flow s)"
  shows "begun t0 ps0 s'"
  using assms at_stage_same_core unfolding begun_def by blast

lemma begun_fire_flow:
  assumes "begun t0 ps0 s" and "earliest (timers s) = Some (due, a)" and "is_flow a"
  shows "begun t0 ps0 (exec a (s\<lparr>clock := max (clock s) due,
            timers := remove1 (due, a) (timers s)\<rparr>))"
  using assms at_stage_fire_flow unfolding begun_def by blast

lemma begun_fire_nonflow:
  assumes "begun t0 ps0 s" and "earliest (timers s) = Some (due, a)" and "\<not> is_flow a"
  shows "begun t0 ps0 (exec a (s\<lparr>clock := max (clock s) due,
            timers := remove1 (due, a) (timers s)\<rparr>))"
  using assms at_stage_fire_nonflow unfolding begun_def by blast







lemma begun_step:
  assumes "begun t0 ps0 s" and "enabled ev s"
  shows "begun t0 ps0 (apply_event ev s)"
proof (cases ev)
  case Fire
  with assms(2) have "enabled Fire s" by simp
  then obtain due a where e: "earliest (timers s) = Some (due, a)"
    and f: "fire s = exec a (s\<lparr>clock := max (clock s) due,
              timers := remove1 (due, a) (timers s)\<rparr>)"
    by (rule fire_unfold)
  show ?thesis
    using begun_fire_flow [OF assms(1) e] begun_fire_nonflow [OF assms(1) e]
    by (cases "is_flow a") (simp_all add: Fire f)
next
  case (Wait d)
  have c: "same_core s (s\<lparr>clock := clock s + d\<rparr>)"
    by (simp add: same_core_def flow_def)
  have "list_all (\<lambda>t. clock s + d \<le> fst t) (flow s)"
    using assms(2) Wait by (auto simp: list_all_iff flow_def)
  then show ?thesis
    using begun_same_core [OF assms(1) c] by (simp add: Wait)
next
  case (Frame now)
  have c: "same_core s (latency_update now s)"
    by (simp add: same_core_def flow_def)
  have "list_all (\<lambda>t. clock s \<le> fst t) (flow s)"
    using assms(1) by (auto simp: begun_def at_stage_def)
  then show ?thesis
    using begun_same_core [OF assms(1) c] by (simp add: Frame)
next
  case ClickBegin
  with assms show ?thesis by (simp add: begun_def at_stage_def)
next
  case ClickAccept
  have "list_all (\<lambda>t. clock s \<le> fst t) (flow s)"
    using assms(1) by (auto simp: begun_def at_stage_def)
  then show ?thesis
    using begun_same_core [OF assms(1) handleAccept_same_core]
    by (simp add: ClickAccept handleAccept_facts)
next
  case ClickRetry
  have "list_all (\<lambda>t. clock s \<le> fst t) (flow s)"
    using assms(1) by (auto simp: begun_def at_stage_def)
  then show ?thesis
    using begun_same_core [OF assms(1) handleRetry_same_core]
    by (simp add: ClickRetry handleRetry_facts)
qed

lemma flow_begin_click:
  "flow (begin_click s) = flow s @ (clock s + 400, ActivateGlobe) #
     (if globeDefined (env s) (clock s) then [(clock s + 1500, StartArc)]
      else [(clock s + 200, WaitForGlobe)])"
  by (simp add: flow_def begin_click_def handler_defs)

lemma begin_click_begun:
  assumes "not_begun ps0 s"
  shows "begun (clock s) ps0 (begin_click s)"
proof -
  let ?z = "begin_click s"
  from assms have f: "flow s = []" and l: "phaseLog s = []" and u: "uncaught s = 0"
    and p: "paragraphs s = ps0" and nc: "\<not> cursorCreated s"
    by (simp_all add: not_begun_def at_stage_def)
  have zf: "phaseLog ?z = phaseLog s @ [Deactivated Landing]" "\<not> btnBeginPointerEvents ?z"
    "uncaught ?z = uncaught s" "\<not> globeResolved ?z" "paragraphs ?z = paragraphs s"
    "cursorCreated ?z = cursorCreated s" "clock ?z = clock s" "env ?z = env s"
    "waitAttempts ?z = (if globeDefined (env s) (clock s) then 0 else 1)"
    by (simp_all add: begin_click_def handler_defs)
  show ?thesis
  proof (cases "globeDefined (env s) (clock s)")
    case True
    then have "seen ?z"
      by (auto simp: seen_def zf)
    then show ?thesis
      by (intro begunI [where ag = False and st = "Built (clock s + 1500)"])
         (use True l u p nc in \<open>simp_all add: flow_begin_click f zf\<close>)
  next
    case False
    then show ?thesis
      by (intro begunI [where ag = False and st = Polling])
         (use False l u p nc in \<open>simp_all add: flow_begin_click f zf\<close>)
  qed
qed

lemma not_begun_step:
  assumes "not_begun ps0 s" and "enabled ev s" and "ev \<noteq> ClickBegin"
  shows "not_begun ps0 (apply_event ev s)"
proof (cases ev)
  case Fire
  with assms(2) have "enabled Fire s" by simp
  then obtain due a where e: "earliest (timers s) = Some (due, a)"
    and f: "fire s = exec a (s\<lparr>clock := max (clock s) due,
              timers := remove1 (due, a) (timers s)\<rparr>)"
    by (rule fire_unfold)
  have "\<not> is_flow a"
    using earliest_mem [OF e] assms(1) by (auto simp: not_begun_def flow_def filter_empty_conv)
  then show ?thesis
    using not_begun_same_core [OF assms(1) fire_nonflow_same_core] by (simp add: Fire f)
next
  case (Wait d)
  then show ?thesis
    using assms(1) by (simp add: not_begun_def flow_def)
next
  case (Frame now)
  then show ?thesis
    using assms(1) by (simp add: not_begun_def flow_def)
next
  case ClickBegin
  with assms(3) show ?thesis by simp
next
  case ClickAccept
  then show ?thesis
    using not_begun_same_core [OF assms(1) handleAccept_same_core] by simp
next
  case ClickRetry
  then show ?thesis
    using not_begun_same_core [OF assms(1) handleRetry_same_core] by simp
qed

lemma run_begun: "run es s = Some s' \<Longrightarrow> begun t0 ps0 s \<Longrightarrow> begun t0 ps0 s'"
  by (induction es arbitrary: s) (auto simp: begun_step split: if_splits)

lemma not_begun_init: "not_begun ps (init e ps)"
  by (simp add: not_begun_def init_def flow_def)

lemma run_invariant:
  "run es s = Some s' \<Longrightarrow> not_begun ps0 s \<Longrightarrow> not_begun ps0 s' \<or> (\<exists>t0. begun t0 ps0 s')"
proof (induction es arbitrary: s)
  case Nil
  then show ?case by simp
next
  case (Cons ev es)
  from Cons.prems(1) have en: "enabled ev s" and r: "run es (apply_event ev s) = Some s'"
    by (simp_all split: if_splits)
  show ?case
  proof (cases "ev = ClickBegin")
    case True
    then have "begun (clock s) ps0 (apply_event ev s)"
      using begin_click_begun [OF Cons.prems(2)] by simp
    then show ?thesis
      using run_begun [OF r] by blast
  next
    case False
    show ?thesis
      using Cons.IH [OF r not_begun_step [OF Cons.prems(2) en False]] .
  qed
qed






lemma exec_env: "env (exec a s) = env s"
  by (cases a) (simp_all add: handler_defs Let_def split: option.splits)

lemma apply_event_env: "env (apply_event ev s) = env s"
  by (cases ev)
     (simp_all add: fire_def exec_env begin_click_def handleAccept_def handleRetry_def
        handler_defs Let_def split: option.splits prod.splits)

lemma run_env: "run es s = Some s' \<Longrightarrow> env s' = env s"
  by (induction es arbitrary: s) (auto simp: apply_event_env split: if_splits)

lemma begun_never:
  assumes b: "begun t0 ps0 s" and never: "\<forall>t. \<not> globeDefined (env s) t"
  shows "(clock s < t0 + 10000 \<longrightarrow> \<not> globeResolved s)
    \<and> (t0 + 10000 < clock s \<longrightarrow> globeResolved s \<and> waitAttempts s = 50)"
proof -
  from b obtain ag st where
    f: "flow s = (if ag then [] else [(t0 + 400, ActivateGlobe)]) @ stage_flow t0 st s"
    and ok: "stage_ok t0 ps0 ag st s" and og: "origin t0 st s"
    and w: "list_all (\<lambda>t. clock s \<le> fst t) (flow s)"
    by (auto simp: begun_def at_stage_def)
  have ns: "\<not> seen s"
    using never by (simp add: seen_def)
  have late: ?thesis
    if "globeResolved s" "seen s \<or> (waitAttempts s = 50 \<and> t0 + 10000 \<le> clock s)"
    using that ns by auto
  show ?thesis
  proof (cases st)
    case Polling
    with f w have "clock s \<le> t0 + 200 * waitAttempts s"
      by (auto simp: list_all_iff)
    with ok Polling show ?thesis by auto
  next
    case (Built d)
    with og ns show ?thesis by simp
  next
    case (Arc d)
    with og ns show ?thesis by simp
  next
    case (Resolved d)
    with ok og show ?thesis by (intro late) simp_all
  next
    case NoType
    with ok og show ?thesis by (intro late) simp_all
  next
    case (Between d)
    with ok og show ?thesis by (intro late) simp_all
  next
    case (Typing d)
    with ok og show ?thesis by (intro late) simp_all
  next
    case Done
    with ok og show ?thesis by (intro late) simp_all
  qed
qed

lemma enabled_begin_not_begun:
  assumes "run es (init e ps) = Some s" and "enabled ClickBegin s"
  shows "not_begun ps s"
  using run_invariant [OF assms(1) not_begun_init] assms(2)
  by (auto simp: begun_def at_stage_def)

subsection \<open>Progress: a pending forward timer fires\<close>

lemma forward_timer_fires:
  assumes "at_stage t0 ps0 ag st s" and "x \<in> set (flow s)" and "fst x \<le> T"
  shows "\<exists>n s' ag' st'. run (replicate n Fire) s = Some s'
           \<and> at_stage t0 ps0 ag' st' s' \<and> todo ag' st' s' < todo ag st s"
  using assms
proof (induction "potential T s" arbitrary: s rule: less_induct)
  case less
  have en: "enabled Fire s"
    using less.prems(2) flow_subset [of s] by auto
  then obtain due a where e: "earliest (timers s) = Some (due, a)"
    and f: "fire s = exec a (s\<lparr>clock := max (clock s) due,
              timers := remove1 (due, a) (timers s)\<rparr>)"
    by (rule fire_unfold)
  have "due \<le> fst x"
    using earliest_least [OF e] less.prems(2) flow_subset [of s] by fastforce
  then have d: "due \<le> T"
    using less.prems(3) by simp
  have r1: "run (replicate 1 Fire) s = Some (fire s)"
    using en by simp
  show ?case
  proof (cases "is_flow a")
    case True
    from at_stage_fire_flow [OF less.prems(1) e True] obtain ag' st' where
      "at_stage t0 ps0 ag' st' (fire s)" "todo ag' st' (fire s) < todo ag st s"
      by (auto simp: f)
    then show ?thesis
      using r1 by blast
  next
    case False
    have a: "at_stage t0 ps0 ag st (fire s)"
      using at_stage_fire_nonflow [OF less.prems(1) e False] by (simp add: f)
    have sc: "same_core s (fire s)"
      using fire_nonflow_same_core [OF False] by (simp add: f)
    then have fs: "flow (fire s) = flow s"
      by (simp add: same_core_def)
    have td: "todo ag st (fire s) = todo ag st s"
      using stage_same_core(3) [OF sc] .
    from less.hyps [OF potential_fire [OF e d] a] less.prems(2,3) fs
    obtain n s' ag' st' where
      "run (replicate n Fire) (fire s) = Some s'" "at_stage t0 ps0 ag' st' s'"
      "todo ag' st' s' < todo ag st (fire s)"
      by auto
    then show ?thesis
      using run_fires_add [OF r1] td by (metis)
  qed
qed

lemma runs_to_rest:
  assumes "at_stage t0 ps0 ag st s"
  shows "\<exists>n s' ag' st'. run (replicate n Fire) s = Some s'
           \<and> at_stage t0 ps0 ag' st' s' \<and> flow s' = []"
  using assms
proof (induction "todo ag st s" arbitrary: s ag st rule: less_induct)
  case less
  show ?case
  proof (cases "flow s")
    case Nil
    have "run (replicate 0 Fire) s = Some s" by simp
    then show ?thesis
      using less.prems Nil by blast
  next
    case (Cons x xs)
    then have m: "x \<in> set (flow s)" by simp
    from forward_timer_fires [OF less.prems m order_refl] obtain n s1 ag1 st1 where
      r: "run (replicate n Fire) s = Some s1" and a: "at_stage t0 ps0 ag1 st1 s1"
      and t: "todo ag1 st1 s1 < todo ag st s"
      by blast
    from less.hyps [OF t a] obtain m s2 ag2 st2 where
      "run (replicate m Fire) s1 = Some s2" "at_stage t0 ps0 ag2 st2 s2" "flow s2 = []"
      by blast
    then show ?thesis
      using run_fires_add [OF r] by blast
  qed
qed

lemma at_rest:
  assumes "at_stage t0 ps0 ag st s" and "flow s = []"
  shows "globeResolved s"
    and "ps0 = Some ps \<Longrightarrow> ps \<noteq> [] \<Longrightarrow> cursorCreated s \<and> length (paras s) \<le> pIndex s"
proof -
  from assms have f: "(if ag then [] else [(t0 + 400, ActivateGlobe)]) @ stage_flow t0 st s = []"
    and ok: "stage_ok t0 ps0 ag st s"
    by (simp_all add: at_stage_def)
  from f have st: "st = NoType \<or> st = Done"
    by (cases st) (simp_all split: if_splits)
  then show "globeResolved s"
    using ok by auto
  show "cursorCreated s \<and> length (paras s) \<le> pIndex s" if "ps0 = Some ps" "ps \<noteq> []"
    using st ok that by (auto simp: typing_ok_def reveal_def)
qed

subsection \<open>Phases, typewriter and globe bridge\<close>

lemmas eval_defs = run_defs Let_def env_never_def TYPEWRITER_SPEED_def paras_def







text \<open>
  Claim C2. If the globe library is never defined, then after a begin click at time \<open>t\<close>
  the promise of \<open>initGlobe\<close> is unresolved in every state before \<open>t + 50 * 200\<close> ms and
  resolved, with all 50 retries used, in every state after it, whatever else happens in
  between; nothing throws, and from wherever the run stands finitely many firings of the
  loop resolve it. The step that gives up resolves the promise on the spot and touches no
  text the user sees.
\<close>

theorem globe_unavailable_gives_up:
  assumes never: "\<forall>t. \<not> globeDefined e t"
    and r1: "run es1 (init e ps) = Some s1" and en: "enabled ClickBegin s1"
    and r2: "run es2 (begin_click s1) = Some s"
  shows "(clock s < clock s1 + 50 * 200 \<longrightarrow> \<not> globeResolved s)
    \<and> (clock s1 + 50 * 200 < clock s \<longrightarrow> globeResolved s \<and> waitAttempts s = 50)
    \<and> uncaught s = 0
    \<and> (\<exists>n s'. run (replicate n Fire) s = Some s' \<and> globeResolved s')
    \<and> (\<forall>y. \<not> globeDefined (env y) (clock y) \<and> 50 \<le> waitAttempts y \<longrightarrow>
          globeResolved (waitForGlobe y)
          \<and> clock (waitForGlobe y) = clock y
          \<and> uncaught (waitForGlobe y) = uncaught y
          \<and> retryErrorText (waitForGlobe y) = retryErrorText y
          \<and> retryErrorVisible (waitForGlobe y) = retryErrorVisible y
          \<and> statPacket (waitForGlobe y) = statPacket y)"
proof -
  have "begun (clock s1) ps (begin_click s1)"
    using begin_click_begun [OF enabled_begin_not_begun [OF r1 en]] .
  then have b: "begun (clock s1) ps s"
    using run_begun [OF r2] by simp
  have "env s = e"
    using run_env [OF r2] run_env [OF r1]
    by (simp add: begin_click_def handler_defs init_def)
  then have "\<forall>t. \<not> globeDefined (env s) t"
    using never by simp
  from begun_never [OF b this] have
    "(clock s < clock s1 + 50 * 200 \<longrightarrow> \<not> globeResolved s)
      \<and> (clock s1 + 50 * 200 < clock s \<longrightarrow> globeResolved s \<and> waitAttempts s = 50)"
    by simp
  moreover have "uncaught s = 0"
    using b by (auto simp: begun_def at_stage_def)
  moreover have "\<exists>n s'. run (replicate n Fire) s = Some s' \<and> globeResolved s'"
  proof -
    from b obtain ag st where "at_stage (clock s1) ps ag st s"
      by (auto simp: begun_def)
    from runs_to_rest [OF this] obtain n s' ag' st' where
      r: "run (replicate n Fire) s = Some s'" and a: "at_stage (clock s1) ps ag' st' s'"
      and f: "flow s' = []"
      by blast
    show ?thesis
      using r at_rest(1) [OF a f] by blast
  qed
  moreover have "globeResolved (waitForGlobe y)
          \<and> clock (waitForGlobe y) = clock y
          \<and> uncaught (waitForGlobe y) = uncaught y
          \<and> retryErrorText (waitForGlobe y) = retryErrorText y
          \<and> retryErrorVisible (waitForGlobe y) = retryErrorVisible y
          \<and> statPacket (waitForGlobe y) = statPacket y"
    if "\<not> globeDefined (env y) (clock y) \<and> 50 \<le> waitAttempts y" for y
    using that by (simp add: handler_defs Let_def)
  ultimately show ?thesis by blast
qed

lemma run_past_give_up:
  "\<exists>s. run
      [Fire, Fire, Fire, Fire, Fire, Fire, Fire, Fire, Fire, Fire, Fire, Fire, Fire, Fire, Fire,
      Fire, Fire, Fire, Fire, Fire, Fire, Fire, Fire, Fire, Fire, Fire, Fire, Fire, Fire, Fire,
      Fire, Fire, Fire, Fire, Fire, Fire, Fire, Fire, Fire, Fire, Fire, Fire, Fire, Fire, Fire,
      Fire, Fire, Fire, Fire, Fire, Fire, Fire]
      (begin_click (apply_event (Wait 100) (init env_never None))) = Some s
     \<and> clock s = 10700"
  by (simp add: eval_defs)

lemma run_before_give_up:
  "\<exists>s. run
      [Fire, Fire, Fire, Fire, Fire, Fire, Fire, Fire, Fire, Fire, Fire, Fire, Fire, Fire, Fire,
      Fire, Fire, Fire, Fire, Fire, Fire, Fire, Fire, Fire, Fire, Fire, Fire, Fire, Fire, Fire,
      Fire, Fire, Fire, Fire, Fire, Fire, Fire, Fire, Fire, Fire, Fire, Fire, Fire, Fire, Fire,
      Fire, Fire, Fire, Fire, Fire]
      (begin_click (apply_event (Wait 100) (init env_never None))) = Some s
     \<and> clock s = 9900"
  by (simp add: eval_defs)

theorem globe_unavailable_gives_up_witness:
  "(\<exists>s. run
      [Fire, Fire, Fire, Fire, Fire, Fire, Fire, Fire, Fire, Fire, Fire, Fire, Fire, Fire, Fire,
      Fire, Fire, Fire, Fire, Fire, Fire, Fire, Fire, Fire, Fire, Fire, Fire, Fire, Fire, Fire,
      Fire, Fire, Fire, Fire, Fire, Fire, Fire, Fire, Fire, Fire, Fire, Fire, Fire, Fire, Fire,
      Fire, Fire, Fire, Fire, Fire, Fire, Fire]
      (begin_click (apply_event (Wait 100) (init env_never None))) = Some s
      \<and> clock (apply_event (Wait 100) (init env_never None)) + 50 * 200 < clock s
      \<and> globeResolved s \<and> waitAttempts s = 50)
   \<and> (\<exists>s. run
      [Fire, Fire, Fire, Fire, Fire, Fire, Fire, Fire, Fire, Fire, Fire, Fire, Fire, Fire, Fire,
      Fire, Fire, Fire, Fire, Fire, Fire, Fire, Fire, Fire, Fire, Fire, Fire, Fire, Fire, Fire,
      Fire, Fire, Fire, Fire, Fire, Fire, Fire, Fire, Fire, Fire, Fire, Fire, Fire, Fire, Fire,
      Fire, Fire, Fire, Fire, Fire]
      (begin_click (apply_event (Wait 100) (init env_never None))) = Some s
      \<and> clock s < clock (apply_event (Wait 100) (init env_never None)) + 50 * 200
      \<and> \<not> globeResolved s)"
proof -
  let ?s1 = "apply_event (Wait 100) (init env_never None)"
  have never: "\<forall>t. \<not> globeDefined env_never t"
    by (simp add: env_never_def)
  have r1: "run [Wait 100] (init env_never None) = Some ?s1"
    by (simp add: init_def)
  have en: "enabled ClickBegin ?s1"
    by (simp add: init_def)
  have c1: "clock ?s1 = 100"
    by (simp add: init_def)
  from run_past_give_up obtain a where
    ra: "run
      [Fire, Fire, Fire, Fire, Fire, Fire, Fire, Fire, Fire, Fire, Fire, Fire, Fire, Fire, Fire,
      Fire, Fire, Fire, Fire, Fire, Fire, Fire, Fire, Fire, Fire, Fire, Fire, Fire, Fire, Fire,
      Fire, Fire, Fire, Fire, Fire, Fire, Fire, Fire, Fire, Fire, Fire, Fire, Fire, Fire, Fire,
      Fire, Fire, Fire, Fire, Fire, Fire, Fire]
      (begin_click ?s1) = Some a"
    and ca: "clock a = 10700"
    by blast
  from run_before_give_up obtain b where
    rb: "run
      [Fire, Fire, Fire, Fire, Fire, Fire, Fire, Fire, Fire, Fire, Fire, Fire, Fire, Fire, Fire,
      Fire, Fire, Fire, Fire, Fire, Fire, Fire, Fire, Fire, Fire, Fire, Fire, Fire, Fire, Fire,
      Fire, Fire, Fire, Fire, Fire, Fire, Fire, Fire, Fire, Fire, Fire, Fire, Fire, Fire, Fire,
      Fire, Fire, Fire, Fire, Fire]
      (begin_click ?s1) = Some b"
    and cb: "clock b = 9900"
    by blast
  have ga: "globeResolved a \<and> waitAttempts a = 50"
    using globe_unavailable_gives_up [OF never r1 en ra] c1 ca by simp
  have gb: "\<not> globeResolved b"
    using globe_unavailable_gives_up [OF never r1 en rb] c1 cb by simp
  have a1: "clock ?s1 + 50 * 200 < clock a"
    unfolding c1 ca by simp
  have b1: "clock b < clock ?s1 + 50 * 200"
    unfolding c1 cb by simp
  show ?thesis
    using ra rb ga gb a1 b1 by blast
qed

end
